theory Spec2Isabelle
  imports Complex_Main
begin

section \<open>Localized Narratives data loader\<close>

text \<open>
  A shallow embedding of \<^verbatim>\<open>localized_narratives.py\<close>: the registry of annotation
  files, the record \<^verbatim>\<open>LocalizedNarrative\<close> with its derived voice-recording URL and its
  textual representation, and the \<^verbatim>\<open>DataLoader\<close> that downloads and reads the
  annotation files.

  Python strings are modelled as HOL strings: a character is a code point below 256
  (the Latin-1 range). Python exceptions are values of the type \<open>error\<close>; a function
  that may raise returns \<open>error + 'a\<close> with \<open>Inl\<close> for the exception.
\<close>

subsection \<open>Exceptions\<close>

text \<open>
  The exceptions the module can raise, by their Python names.
  \<^item> \<open>ValueError\<close> is raised by \<^verbatim>\<open>_expected_files\<close> for a key that is not in the
    registry; it carries the message.
  \<^item> \<open>AttributeError\<close> comes from \<^verbatim>\<open>re.search(...).groups()\<close> when the search returns
    \<^verbatim>\<open>None\<close>.
  \<^item> \<open>IndexError\<close> comes from indexing an empty list.
  \<^item> \<open>DownloadError\<close> stands for whatever \<^verbatim>\<open>wget.download\<close> raises on a network failure,
    \<open>DecodeError\<close> for whatever \<^verbatim>\<open>LocalizedNarrative(**json.loads(line))\<close> raises.
  \<^item> \<open>FileExistsError\<close>, \<open>NotADirectoryError\<close>, \<open>IsADirectoryError\<close> and
    \<open>FileNotFoundError\<close> come from the operating system calls.
\<close>

datatype error =
    ValueError string
  | AttributeError
  | IndexError
  | DownloadError
  | DecodeError
  | FileExistsError
  | NotADirectoryError
  | IsADirectoryError
  | FileNotFoundError

subsection \<open>String helpers of the Python runtime\<close>

text \<open>\<^verbatim>\<open>sub in s\<close> on strings: \<open>sub\<close> occurs in \<open>s\<close> as a contiguous block.\<close>

fun startswith :: "string \<Rightarrow> string \<Rightarrow> bool" where
  "startswith s [] = True"
| "startswith [] (p # ps) = False"
| "startswith (c # cs) (p # ps) = (c = p \<and> startswith cs ps)"

fun contains :: "string \<Rightarrow> string \<Rightarrow> bool" where
  "contains sub [] = (sub = [])"
| "contains sub (c # cs) = (startswith (c # cs) sub \<or> contains sub cs)"

text \<open>\<^verbatim>\<open>str(n)\<close> for an integer: its decimal digits, with a minus sign when negative.\<close>

definition digit_char :: "nat \<Rightarrow> char" where
  "digit_char d = ''0123456789'' ! d"

fun str_nat :: "nat \<Rightarrow> string" where
  "str_nat n = (if n < 10 then [digit_char n] else str_nat (n div 10) @ [digit_char (n mod 10)])"

declare str_nat.simps [simp del]

definition str_int :: "int \<Rightarrow> string" where
  "str_int i = (if i < 0 then CHR ''-'' # str_nat (nat (- i)) else str_nat (nat i))"

text \<open>
  \<^verbatim>\<open>s.zfill(width)\<close>: pads with zeros on the left up to \<open>width\<close> characters; a leading
  sign stays in front of the padding.
\<close>

definition zfill :: "nat \<Rightarrow> string \<Rightarrow> string" where
  "zfill width s =
     (if width \<le> length s then s
      else (case s of
              [] \<Rightarrow> replicate width CHR ''0''
            | c # cs \<Rightarrow>
                if c = CHR ''+'' \<or> c = CHR ''-''
                then c # replicate (width - length s) CHR ''0'' @ cs
                else replicate (width - length s) CHR ''0'' @ s))"

subsection \<open>The regular expression of the voice-recording path\<close>

text \<open>
  The character classes of the pattern. \<^verbatim>\<open>[0-9]\<close> is the ten ASCII digits. \<^verbatim>\<open>\w\<close> on a
  Python 3 string is every alphanumeric code point and the underscore; below 256 these
  are the ASCII letters and digits, the underscore, and the Latin-1 letters and
  numeric signs listed here.
\<close>

definition is_digit09 :: "char \<Rightarrow> bool" where
  "is_digit09 c = (let n = (of_char c :: nat) in 48 \<le> n \<and> n \<le> 57)"

definition is_word :: "char \<Rightarrow> bool" where
  "is_word c =
     (let n = (of_char c :: nat) in
        (48 \<le> n \<and> n \<le> 57) \<or> (65 \<le> n \<and> n \<le> 90) \<or> n = 95 \<or> (97 \<le> n \<and> n \<le> 122)
        \<or> n = 170 \<or> n = 178 \<or> n = 179 \<or> n = 181 \<or> n = 185 \<or> n = 186
        \<or> (188 \<le> n \<and> n \<le> 190) \<or> (192 \<le> n \<and> n \<le> 214)
        \<or> (216 \<le> n \<and> n \<le> 246) \<or> (248 \<le> n \<and> n \<le> 255))"

datatype cclass = Word | Digit09

fun in_class :: "cclass \<Rightarrow> char \<Rightarrow> bool" where
  "in_class Word c = is_word c"
| "in_class Digit09 c = is_digit09 c"

text \<open>
  The pattern uses three kinds of items: a literal character, a greedy repetition
  \<^verbatim>\<open>C+\<close> of a character class, and such a repetition inside a capture group
  \<^verbatim>\<open>(C+)\<close>.
\<close>

datatype re_item = Lit char | Plus cclass | GroupPlus cclass

text \<open>
  A greedy repetition first takes as many characters as the class allows and gives
  them back one at a time, down to one character, until the rest of the pattern
  matches: \<open>try_lengths f n\<close> is the first success of \<open>f n\<close>, \<open>f (n - 1)\<close>, ..., \<open>f 1\<close>.
\<close>

fun try_lengths :: "(nat \<Rightarrow> 'a option) \<Rightarrow> nat \<Rightarrow> 'a option" where
  "try_lengths f 0 = None"
| "try_lengths f (Suc k) = (case f (Suc k) of Some r \<Rightarrow> Some r | None \<Rightarrow> try_lengths f k)"

text \<open>
  \<open>re_match pat s\<close> matches the pattern at the start of \<open>s\<close> and returns the captured
  groups in order; \<open>re_search\<close> is \<^verbatim>\<open>re.search\<close>: the match at the leftmost start position
  that has one.
\<close>

primrec re_match :: "re_item list \<Rightarrow> string \<Rightarrow> string list option" where
  "re_match [] s = Some []"
| "re_match (it # rest) s =
     (case it of
        Lit c \<Rightarrow> (case s of [] \<Rightarrow> None | d # s' \<Rightarrow> if d = c then re_match rest s' else None)
      | Plus cl \<Rightarrow>
          try_lengths (\<lambda>k. re_match rest (drop k s)) (length (takeWhile (in_class cl) s))
      | GroupPlus cl \<Rightarrow>
          try_lengths (\<lambda>k. map_option ((#) (take k s)) (re_match rest (drop k s)))
            (length (takeWhile (in_class cl) s)))"

fun re_search :: "re_item list \<Rightarrow> string \<Rightarrow> string list option" where
  "re_search pat [] = re_match pat []"
| "re_search pat (c # cs) =
     (case re_match pat (c # cs) of Some g \<Rightarrow> Some g | None \<Rightarrow> re_search pat cs)"

text \<open>The pattern \<^verbatim>\<open>(\w+)/\w+_([0-9]+)_[0-9]+\.\<close> of \<^verbatim>\<open>voice_recording_url\<close>.\<close>

definition VOICE_PATTERN :: "re_item list" where
  "VOICE_PATTERN =
     [GroupPlus Word, Lit CHR ''/'', Plus Word, Lit CHR ''_'',
      GroupPlus Digit09, Lit CHR ''_'', Plus Digit09, Lit CHR ''.'']"

subsection \<open>The records\<close>

text \<open>
  \<^verbatim>\<open>TimedPoint\<close> and \<^verbatim>\<open>TimedUtterance\<close> hold floats that the module stores and prints
  and never computes with; they are reals here. The fields \<^verbatim>\<open>x\<close>, \<^verbatim>\<open>y\<close>, \<^verbatim>\<open>t\<close> carry the
  prefix \<open>tp_\<close>.
\<close>

datatype TimedPoint = TimedPoint (tp_x: real) (tp_y: real) (tp_t: real)

datatype TimedUtterance =
  TimedUtterance (utterance: string) (start_time: real) (end_time: real)

record LocalizedNarrative =
  dataset_id :: string
  image_id :: string
  annotator_id :: int
  caption :: string
  timed_caption :: "TimedUtterance list"
  traces :: "TimedPoint list list"
  voice_recording :: string

definition ROOT_URL :: string where
  "ROOT_URL = ''https://storage.googleapis.com/localized-narratives''"

definition ANNOTATIONS_ROOT_URL :: string where
  "ANNOTATIONS_ROOT_URL = ROOT_URL @ ''/annotations''"

definition RECORDINGS_ROOT_URL :: string where
  "RECORDINGS_ROOT_URL = ROOT_URL @ ''/voice-recordings''"

text \<open>
  The property \<^verbatim>\<open>voice_recording_url\<close>. When the search finds nothing, \<^verbatim>\<open>.groups()\<close> is
  called on \<^verbatim>\<open>None\<close> and raises. The pattern has two groups, so the unpacking into
  \<^verbatim>\<open>split_id, image_id\<close> cannot fail; the last case is there for totality. The local
  variable \<^verbatim>\<open>image_id\<close> is \<open>img_id\<close> here, since \<open>image_id\<close> names the field.
\<close>

definition voice_recording_url :: "LocalizedNarrative \<Rightarrow> error + string" where
  "voice_recording_url self =
     (if contains ''Flic'' (dataset_id self) \<or> contains ''ADE'' (dataset_id self) then
        (case re_search VOICE_PATTERN (voice_recording self) of
           None \<Rightarrow> Inl AttributeError
         | Some [split_id, img_id] \<Rightarrow>
             (let img_id' = zfill 16 img_id in
              Inr (RECORDINGS_ROOT_URL @ ''/'' @ split_id @ ''/'' @ split_id @ ''_'' @ img_id'
                   @ ''_'' @ str_int (annotator_id self) @ ''.ogg''))
         | Some _ \<Rightarrow> Inl (ValueError ''unpack''))
      else Inr (RECORDINGS_ROOT_URL @ ''/'' @ voice_recording self))"

text \<open>
  \<^verbatim>\<open>__repr__\<close>. The two indexings \<^verbatim>\<open>self.timed_caption[0]\<close> and \<^verbatim>\<open>self.traces[0][0]\<close>
  are evaluated in this order, before the string is built; each raises on an empty
  list. \<open>str_utterance\<close> and \<open>str_point\<close> are \<^verbatim>\<open>__str__\<close> of the two named tuples, which
  print floats and quote strings as the Python runtime does; they are parameters.
\<close>

definition newline :: string where
  "newline = [CHR 0x0A]"

definition LocalizedNarrative_repr ::
  "(TimedUtterance \<Rightarrow> string) \<Rightarrow> (TimedPoint \<Rightarrow> string) \<Rightarrow> LocalizedNarrative \<Rightarrow> error + string"
where
  "LocalizedNarrative_repr str_utterance str_point self =
     (let truncated_caption =
            (if length (caption self) > 63 then take 60 (caption self) @ ''...''
             else caption self)
      in case timed_caption self of
           [] \<Rightarrow> Inl IndexError
         | u # _ \<Rightarrow>
             (let truncated_timed_caption = str_utterance u
              in case traces self of
                   [] \<Rightarrow> Inl IndexError
                 | tr # _ \<Rightarrow>
                     (case tr of
                        [] \<Rightarrow> Inl IndexError
                      | pt # _ \<Rightarrow>
                          (let truncated_traces = str_point pt
                           in Inr (''{'' @ newline
                                   @ '' dataset_id: '' @ dataset_id self @ '','' @ newline
                                   @ '' image_id: '' @ image_id self @ '','' @ newline
                                   @ '' annotator_id: '' @ str_int (annotator_id self) @ '',''
                                   @ newline
                                   @ '' caption: '' @ truncated_caption @ '','' @ newline
                                   @ '' timed_caption: ['' @ truncated_timed_caption @ '', ...],''
                                   @ newline
                                   @ '' traces: [['' @ truncated_traces @ '', ...], ...],''
                                   @ newline
                                   @ '' voice_recording: '' @ voice_recording self @ newline
                                   @ ''}'')))))"

subsection \<open>The registry of annotation files\<close>

text \<open>
  \<^verbatim>\<open>f'{i:05d}'\<close>: the decimal digits of \<open>i\<close>, padded with zeros to five characters.
\<close>

definition fmt_05d :: "nat \<Rightarrow> string" where
  "fmt_05d i = zfill 5 (str_int (int i))"

text \<open>
  The dictionary \<^verbatim>\<open>_ANNOTATION_FILES\<close>, as the list of its items; its keys are distinct,
  and \<open>map_of\<close> is the lookup.
\<close>

definition ANNOTATION_FILES :: "(string \<times> string list) list" where
  "ANNOTATION_FILES =
     [(''open_images_train'',
         map (\<lambda>i. ''open_images_train_v6_localized_narratives-'' @ fmt_05d i @ ''-of-00010.jsonl'')
           [0..<10]),
      (''open_images_val'', [''open_images_validation_localized_narratives.jsonl'']),
      (''open_images_test'', [''open_images_test_localized_narratives.jsonl'']),
      (''coco_train'',
         map (\<lambda>i. ''coco_train_localized_narratives-'' @ fmt_05d i @ ''-of-00004.jsonl'')
           [0..<4]),
      (''coco_val'', [''coco_val_localized_narratives.jsonl'']),
      (''flickr30k_train'', [''flickr30k_train_localized_narratives.jsonl'']),
      (''flickr30k_val'', [''flickr30k_val_localized_narratives.jsonl'']),
      (''flickr30k_test'', [''flickr30k_test_localized_narratives.jsonl'']),
      (''ade20k_train'', [''ade20k_train_localized_narratives.jsonl'']),
      (''ade20k_val'', [''ade20k_validation_localized_narratives.jsonl''])]"

text \<open>
  \<^verbatim>\<open>_expected_files\<close>: the files of a key, or \<^verbatim>\<open>ValueError\<close> for a key the dictionary does
  not have. The Python is a generator; the lookup happens when its first element is
  asked for, which is where the callers below place it.
\<close>

definition expected_files :: "string \<Rightarrow> error + string list" where
  "expected_files dataset_and_split =
     (case map_of ANNOTATION_FILES dataset_and_split of
        Some filenames \<Rightarrow> Inr filenames
      | None \<Rightarrow> Inl (ValueError (''Unknown value for `dataset_and_split`: '' @ dataset_and_split)))"

subsection \<open>The world outside: file system, network, console\<close>

text \<open>
  A path of the local file system holds a regular file (its lines, as \<^verbatim>\<open>for line in f\<close>
  returns them), a directory, or nothing. The remote server has a content for some
  URLs. Every call that touches the file system, the network or the console is
  appended to \<open>trace\<close>.
\<close>

datatype node = File "string list" | Dir

datatype event =
    MakeDirs string
  | PathExists string
  | Print string
  | WgetDownload string string
  | OpenFile string
  | ReadLine string
  | CloseFile string

record world =
  disk :: "string \<rightharpoonup> node"
  remote :: "string \<rightharpoonup> string list"
  trace :: "event list"

definition emit :: "event \<Rightarrow> world \<Rightarrow> world" where
  "emit e w = w\<lparr>trace := trace w @ [e]\<rparr>"

text \<open>
  \<^verbatim>\<open>os.makedirs(path, exist_ok=True)\<close>, by what it does to the file system. The directories
  on the way to \<open>path\<close> are its prefixes that end before a slash, from the shortest to the
  longest; the root directory, written with slashes only, is always there. Each of them
  and then \<open>path\<close> itself, without its trailing slashes, is created unless it is there as
  a directory. The call raises \<^verbatim>\<open>FileNotFoundError\<close> for the empty path,
  \<^verbatim>\<open>NotADirectoryError\<close> when a regular file is on the way, and \<^verbatim>\<open>FileExistsError\<close> when a
  regular file is at \<open>path\<close>. A path is looked up on the disk as it is written: the
  components \<^verbatim>\<open>.\<close> and \<^verbatim>\<open>..\<close> and repeated slashes are not resolved.
\<close>

definition is_slashes :: "string \<Rightarrow> bool" where
  "is_slashes p = (p \<noteq> [] \<and> (\<forall>c \<in> set p. c = CHR ''/''))"

definition rstrip_slashes :: "string \<Rightarrow> string" where
  "rstrip_slashes p = rev (dropWhile (\<lambda>c. c = CHR ''/'') (rev p))"

fun path_ancestors_from :: "string \<Rightarrow> string \<Rightarrow> string list" where
  "path_ancestors_from pre [] = []"
| "path_ancestors_from pre (c # cs) =
     (if c = CHR ''/'' \<and> pre \<noteq> [] \<and> \<not> is_slashes pre then [pre] else [])
     @ path_ancestors_from (pre @ [c]) cs"

fun make_dirs :: "(string \<rightharpoonup> node) \<Rightarrow> string list \<Rightarrow> (error + unit) \<times> (string \<rightharpoonup> node)" where
  "make_dirs dsk [] = (Inr (), dsk)"
| "make_dirs dsk (p # ps) =
     (case dsk p of
        None \<Rightarrow> make_dirs (dsk(p \<mapsto> Dir)) ps
      | Some Dir \<Rightarrow> make_dirs dsk ps
      | Some (File _) \<Rightarrow> (Inl (if ps = [] then FileExistsError else NotADirectoryError), dsk))"

definition os_makedirs :: "string \<Rightarrow> world \<Rightarrow> (error + unit) \<times> world" where
  "os_makedirs path w =
     (if path = [] then (Inl FileNotFoundError, emit (MakeDirs path) w)
      else if is_slashes path then (Inr (), emit (MakeDirs path) w)
      else (case make_dirs (disk w)
                   (path_ancestors_from [] (rstrip_slashes path) @ [rstrip_slashes path]) of
              (r, dsk) \<Rightarrow> (r, emit (MakeDirs path) (w\<lparr>disk := dsk\<rparr>))))"

text \<open>\<^verbatim>\<open>os.path.exists(path)\<close>.\<close>

definition os_path_exists :: "string \<Rightarrow> world \<Rightarrow> bool \<times> world" where
  "os_path_exists path w = (disk w path \<noteq> None, emit (PathExists path) w)"

text \<open>\<^verbatim>\<open>os.path.join(a, b)\<close> on POSIX.\<close>

definition os_path_join :: "string \<Rightarrow> string \<Rightarrow> string" where
  "os_path_join a b =
     (if startswith b ''/'' then b
      else if a = [] \<or> last a = CHR ''/'' then a @ b
      else a @ ''/'' @ b)"

text \<open>
  \<^verbatim>\<open>wget.download(url, out)\<close>: writes the remote content to \<open>out\<close>, or raises when the
  server does not deliver it.
\<close>

definition wget_download :: "string \<Rightarrow> string \<Rightarrow> world \<Rightarrow> (error + unit) \<times> world" where
  "wget_download url out w =
     (case remote w url of
        None \<Rightarrow> (Inl DownloadError, emit (WgetDownload url out) w)
      | Some content \<Rightarrow>
          (Inr (), emit (WgetDownload url out) (w\<lparr>disk := (disk w)(out \<mapsto> File content)\<rparr>)))"

text \<open>\<^verbatim>\<open>open(path, 'rb')\<close>: the lines of a regular file.\<close>

definition open_rb :: "string \<Rightarrow> world \<Rightarrow> (error + string list) \<times> world" where
  "open_rb path w =
     (case disk w path of
        Some (File content) \<Rightarrow> (Inr content, emit (OpenFile path) w)
      | Some Dir \<Rightarrow> (Inl IsADirectoryError, emit (OpenFile path) w)
      | None \<Rightarrow> (Inl FileNotFoundError, emit (OpenFile path) w))"

subsection \<open>The data loader\<close>

text \<open>
  A \<^verbatim>\<open>DataLoader\<close> is its \<^verbatim>\<open>_local_root_dir\<close>, passed as \<open>local_root_dir\<close>. The handle
  \<^verbatim>\<open>_current_open_file\<close> lives between the \<open>OpenFile\<close> and the \<open>CloseFile\<close> event of its path.
\<close>

definition local_file :: "string \<Rightarrow> string \<Rightarrow> string" where
  "local_file local_root_dir filename = os_path_join local_root_dir filename"

definition download_one_file :: "string \<Rightarrow> string \<Rightarrow> world \<Rightarrow> (error + unit) \<times> world" where
  "download_one_file local_root_dir filename w =
     (case os_path_exists (local_file local_root_dir filename) w of
        (False, w1) \<Rightarrow>
          (case wget_download (ANNOTATIONS_ROOT_URL @ ''/'' @ filename)
                  (local_file local_root_dir filename)
                  (emit (Print (''Downloading: '' @ filename)) w1) of
             (Inl e, w2) \<Rightarrow> (Inl e, w2)
           | (Inr _, w2) \<Rightarrow> (Inr (), emit (Print []) w2))
      | (True, w1) \<Rightarrow> (Inr (), emit (Print (''Already downloaded: '' @ filename)) w1))"

text \<open>The loop of \<^verbatim>\<open>download_annotations\<close>; an exception leaves it.\<close>

fun download_files :: "string \<Rightarrow> string list \<Rightarrow> world \<Rightarrow> (error + unit) \<times> world" where
  "download_files local_root_dir [] w = (Inr (), w)"
| "download_files local_root_dir (filename # filenames) w =
     (case download_one_file local_root_dir filename w of
        (Inl e, w1) \<Rightarrow> (Inl e, w1)
      | (Inr _, w1) \<Rightarrow> download_files local_root_dir filenames w1)"

text \<open>
  \<^verbatim>\<open>download_annotations\<close>: the directory is made first; the loop header then asks
  \<^verbatim>\<open>_expected_files\<close> for its first element, which is where an unknown key raises.
\<close>

definition download_annotations :: "string \<Rightarrow> string \<Rightarrow> world \<Rightarrow> (error + unit) \<times> world" where
  "download_annotations local_root_dir dataset_and_split w =
     (case os_makedirs local_root_dir w of
        (Inl e, w1) \<Rightarrow> (Inl e, w1)
      | (Inr _, w1) \<Rightarrow>
          (case expected_files dataset_and_split of
             Inl e \<Rightarrow> (Inl e, w1)
           | Inr filenames \<Rightarrow> download_files local_root_dir filenames w1))"

text \<open>
  \<^verbatim>\<open>load_annotations\<close> is a generator. It is modelled run to its end: the result is the
  list of the records it yields, how it ends (\<open>Inr ()\<close> when the generator returns,
  \<open>Inl e\<close> when it raises \<open>e\<close>), and the world it leaves. \<open>decode\<close> is
  \<^verbatim>\<open>LocalizedNarrative(**json.loads(line))\<close>, a parameter.

  The inner loop over the lines of one open file ends in one of three ways: the lines
  are used up and the outer loop goes on with the new \<^verbatim>\<open>num_loaded\<close>, the limit is
  reached and the generator returns, or decoding raises.
\<close>

datatype loop_exit = Exhausted int | Returned | Raised error

fun read_lines ::
  "(string \<Rightarrow> error + LocalizedNarrative) \<Rightarrow> int \<Rightarrow> string \<Rightarrow> string list \<Rightarrow> int \<Rightarrow> world
   \<Rightarrow> LocalizedNarrative list \<times> loop_exit \<times> world"
where
  "read_lines decode max_num_annotations path [] num_loaded w = ([], Exhausted num_loaded, w)"
| "read_lines decode max_num_annotations path (line # lines) num_loaded w =
     (let w1 = emit (ReadLine path) w in
      case decode line of
        Inl e \<Rightarrow> ([], Raised e, w1)
      | Inr narrative \<Rightarrow>
          (let num_loaded1 = num_loaded + 1 in
           if num_loaded1 = max_num_annotations
           then ([narrative], Returned, emit (CloseFile path) w1)
           else (case read_lines decode max_num_annotations path lines num_loaded1 w1 of
                   (narratives, ex, w2) \<Rightarrow> (narrative # narratives, ex, w2))))"

text \<open>
  The outer loop runs over \<^verbatim>\<open>_find_files\<close>, itself a generator over the expected files:
  the existence of a file is checked when the outer loop asks for the next path, after
  the file before it has been read and closed.
\<close>

fun load_files ::
  "(string \<Rightarrow> error + LocalizedNarrative) \<Rightarrow> int \<Rightarrow> string \<Rightarrow> string list \<Rightarrow> int \<Rightarrow> world
   \<Rightarrow> LocalizedNarrative list \<times> (error + unit) \<times> world"
where
  "load_files decode max_num_annotations local_root_dir [] num_loaded w = ([], Inr (), w)"
| "load_files decode max_num_annotations local_root_dir (filename # filenames) num_loaded w =
     (case os_path_exists (local_file local_root_dir filename) w of
        (False, w1) \<Rightarrow>
          load_files decode max_num_annotations local_root_dir filenames num_loaded w1
      | (True, w1) \<Rightarrow>
          (case open_rb (local_file local_root_dir filename) w1 of
             (Inl e, w2) \<Rightarrow> ([], Inl e, w2)
           | (Inr lines, w2) \<Rightarrow>
               (case read_lines decode max_num_annotations (local_file local_root_dir filename)
                       lines num_loaded w2 of
                  (narratives, Raised e, w3) \<Rightarrow> (narratives, Inl e, w3)
                | (narratives, Returned, w3) \<Rightarrow> (narratives, Inr (), w3)
                | (narratives, Exhausted num_loaded1, w3) \<Rightarrow>
                    (case load_files decode max_num_annotations local_root_dir filenames
                            num_loaded1
                            (emit (CloseFile (local_file local_root_dir filename)) w3) of
                       (narratives1, r, w4) \<Rightarrow> (narratives @ narratives1, r, w4)))))"

definition load_annotations ::
  "(string \<Rightarrow> error + LocalizedNarrative) \<Rightarrow> string \<Rightarrow> string \<Rightarrow> int \<Rightarrow> world
   \<Rightarrow> LocalizedNarrative list \<times> (error + unit) \<times> world"
where
  "load_annotations decode local_root_dir dataset_and_split max_num_annotations w =
     (case expected_files dataset_and_split of
        Inl e \<Rightarrow> ([], Inl e, w)
      | Inr filenames \<Rightarrow>
          load_files decode max_num_annotations local_root_dir filenames 0 w)"

text \<open>The default of \<^verbatim>\<open>max_num_annotations\<close> is \<^verbatim>\<open>int(1e30)\<close>.\<close>

definition DEFAULT_MAX_NUM_ANNOTATIONS :: int where
  "DEFAULT_MAX_NUM_ANNOTATIONS = 1000000000000000019884624838656"

subsection \<open>Notions used in the statements\<close>

text \<open>
  What the pattern of \<^verbatim>\<open>voice_recording_url\<close> says, without the search: a run of a
  character class is a string of one or more characters of the class, and \<open>re_lang pat s\<close>
  holds when \<open>s\<close> starts with a string that the items of \<open>pat\<close> describe one after the
  other.
\<close>

definition class_run :: "cclass \<Rightarrow> string \<Rightarrow> bool" where
  "class_run cl u = (u \<noteq> [] \<and> (\<forall>c \<in> set u. in_class cl c))"

primrec re_lang :: "re_item list \<Rightarrow> string \<Rightarrow> bool" where
  "re_lang [] s = True"
| "re_lang (it # rest) s =
     (case it of
        Lit c \<Rightarrow> (\<exists>s'. s = c # s' \<and> re_lang rest s')
      | Plus cl \<Rightarrow> (\<exists>u v. s = u @ v \<and> class_run cl u \<and> re_lang rest v)
      | GroupPlus cl \<Rightarrow> (\<exists>u v. s = u @ v \<and> class_run cl u \<and> re_lang rest v))"




text \<open>
  What \<^verbatim>\<open>_download_one_file\<close> does for a file that is already there: one existence check
  and one line on the console.
\<close>

definition already_downloaded_events :: "string \<Rightarrow> string \<Rightarrow> event list" where
  "already_downloaded_events local_root_dir filename =
     [PathExists (local_file local_root_dir filename),
      Print (''Already downloaded: '' @ filename)]"

text \<open>
  Two worlds for the examples: one with an empty disk and no server, and one with an
  empty disk and a server that has the \<^verbatim>\<open>coco_val\<close> file, of two lines.
\<close>

definition empty_world :: world where
  "empty_world = \<lparr>disk = Map.empty, remote = Map.empty, trace = []\<rparr>"

definition example_world :: world where
  "example_world =
     \<lparr>disk = Map.empty,
      remote = [ANNOTATIONS_ROOT_URL @ ''/coco_val_localized_narratives.jsonl'' \<mapsto> [''a'', ''b'']],
      trace = []\<rparr>"

text \<open>
  The local paths of the expected files that exist on a disk, in the order of the
  registry: what \<^verbatim>\<open>_find_files\<close> yields.
\<close>

definition present_paths :: "(string \<rightharpoonup> node) \<Rightarrow> string \<Rightarrow> string list \<Rightarrow> string list" where
  "present_paths dsk local_root_dir filenames =
     filter (\<lambda>p. dsk p \<noteq> None) (map (local_file local_root_dir) filenames)"

text \<open>The lines of the regular file at a path, and the lines of all present files, file
  after file in the order of the registry and line after line within a file.\<close>

definition file_lines :: "(string \<rightharpoonup> node) \<Rightarrow> string \<Rightarrow> string list" where
  "file_lines dsk p = (case dsk p of Some (File content) \<Rightarrow> content | _ \<Rightarrow> [])"

definition local_lines :: "(string \<rightharpoonup> node) \<Rightarrow> string \<Rightarrow> string list \<Rightarrow> string list" where
  "local_lines dsk local_root_dir filenames =
     concat (map (file_lines dsk) (present_paths dsk local_root_dir filenames))"

text \<open>Every expected path that exists is a regular file, not a directory.\<close>

definition regular_paths :: "(string \<rightharpoonup> node) \<Rightarrow> string \<Rightarrow> string list \<Rightarrow> bool" where
  "regular_paths dsk local_root_dir filenames =
     (\<forall>p \<in> set (present_paths dsk local_root_dir filenames). dsk p \<noteq> Some Dir)"

text \<open>A line is decodable when \<open>decode\<close> returns a record for it.\<close>

definition decodable :: "(string \<Rightarrow> error + LocalizedNarrative) \<Rightarrow> string \<Rightarrow> bool" where
  "decodable decode line = (case decode line of Inl e \<Rightarrow> False | Inr narrative \<Rightarrow> True)"

text \<open>The number of lines read in a list of events.\<close>

fun is_read :: "event \<Rightarrow> bool" where
  "is_read (ReadLine p) = True"
| "is_read e = False"

definition count_reads :: "event list \<Rightarrow> nat" where
  "count_reads evs = length (filter is_read evs)"

text \<open>
  How a pass over a list of lines ends when no limit stops it: normally when every line
  is decodable, otherwise with the exception of the first line that is not.
\<close>

definition first_failure :: "(string \<Rightarrow> error + LocalizedNarrative) \<Rightarrow> string list \<Rightarrow> error + unit" where
  "first_failure decode lines =
     (case dropWhile (decodable decode) lines of
        [] \<Rightarrow> Inr ()
      | line # _ \<Rightarrow> (case decode line of Inl e \<Rightarrow> Inl e | Inr _ \<Rightarrow> Inr ()))"

text \<open>
  The records and the end of \<^verbatim>\<open>load_annotations\<close> as a function of the lines of the present
  files alone. With a positive limit that the decodable lines at the front reach, the
  records of the first \<open>max_num_annotations\<close> lines and a normal return; otherwise the
  records of the lines before the first undecodable one and the end \<open>first_failure\<close>.
\<close>

definition expected_load ::
  "(string \<Rightarrow> error + LocalizedNarrative) \<Rightarrow> int \<Rightarrow> string list
   \<Rightarrow> LocalizedNarrative list \<times> (error + unit)"
where
  "expected_load decode max_num_annotations lines =
     (if 0 < max_num_annotations
         \<and> nat max_num_annotations \<le> length (takeWhile (decodable decode) lines)
      then (map (projr \<circ> decode) (take (nat max_num_annotations) lines), Inr ())
      else (map (projr \<circ> decode) (takeWhile (decodable decode) lines),
            first_failure decode lines))"

text \<open>
  For the examples: a decoder that rejects the line \<^verbatim>\<open>bad\<close> and turns any other line into a
  record that carries it; a disk with two of the four \<^verbatim>\<open>coco_train\<close> shards; a disk whose
  \<^verbatim>\<open>coco_val\<close> file starts with an undecodable line.
\<close>

definition example_decode :: "string \<Rightarrow> error + LocalizedNarrative" where
  "example_decode line =
     (if line = ''bad'' then Inl DecodeError
      else Inr \<lparr>dataset_id = ''mscoco_train2017'', image_id = line, annotator_id = 0,
                caption = line, timed_caption = [], traces = [], voice_recording = line\<rparr>)"

definition partial_world :: world where
  "partial_world =
     \<lparr>disk = [''data/coco_train_localized_narratives-00000-of-00004.jsonl'' \<mapsto> File [''a'', ''b''],
              ''data/coco_train_localized_narratives-00002-of-00004.jsonl'' \<mapsto> File [''c'', ''d'']],
      remote = Map.empty,
      trace = []\<rparr>"

definition damaged_world :: world where
  "damaged_world =
     \<lparr>disk = [''data/coco_val_localized_narratives.jsonl'' \<mapsto> File [''bad'', ''a'', ''b'']],
      remote = Map.empty,
      trace = []\<rparr>"

section \<open>Properties\<close>

subsection \<open>The voice-recording URL\<close>


text \<open>
  C8. For a record whose \<open>dataset_id\<close> contains neither family marker, the URL is the
  recordings base URL, a slash, and the stored \<open>voice_recording\<close>, unchanged.
\<close>

theorem voice_recording_url_default:
  assumes "\<not> contains ''Flic'' (dataset_id self)" and "\<not> contains ''ADE'' (dataset_id self)"
  shows "voice_recording_url self = Inr (RECORDINGS_ROOT_URL @ ''/'' @ voice_recording self)"
  using assms by (simp add: voice_recording_url_def)

theorem voice_recording_url_default_witness:
  "voice_recording_url
     \<lparr>dataset_id = ''mscoco_val2017'', image_id = ''137576'', annotator_id = 93,
      caption = ''a dog'', timed_caption = [], traces = [],
      voice_recording = ''abc/def.ogg''\<rparr>
   = Inr ''https://storage.googleapis.com/localized-narratives/voice-recordings/abc/def.ogg''"
  using voice_recording_url_default
    [of "\<lparr>dataset_id = ''mscoco_val2017'', image_id = ''137576'', annotator_id = 93,
          caption = ''a dog'', timed_caption = [], traces = [],
          voice_recording = ''abc/def.ogg''\<rparr>"]
  by (simp add: RECORDINGS_ROOT_URL_def ROOT_URL_def)

subsection \<open>The textual representation\<close>

text \<open>
  C10. \<^verbatim>\<open>__repr__\<close> indexes \<^verbatim>\<open>timed_caption[0]\<close> and \<^verbatim>\<open>traces[0][0]\<close> without a check:
  for a record whose \<open>timed_caption\<close> is empty, whose \<open>traces\<close> is empty, or whose first
  trace is empty, it raises \<^verbatim>\<open>IndexError\<close> and returns no string.
\<close>

theorem repr_index_error:
  assumes "timed_caption self = [] \<or> traces self = [] \<or> (\<exists>rest. traces self = [] # rest)"
  shows "LocalizedNarrative_repr str_utterance str_point self = Inl IndexError"
  using assms by (auto simp: LocalizedNarrative_repr_def Let_def split: list.splits)

theorem repr_index_error_witness:
  "LocalizedNarrative_repr (\<lambda>u. utterance u) (\<lambda>p. ''pt'')
     \<lparr>dataset_id = ''mscoco_val2017'', image_id = ''137576'', annotator_id = 93,
      caption = ''a dog'', timed_caption = [TimedUtterance ''a dog'' 0 1], traces = [[]],
      voice_recording = ''abc/def.ogg''\<rparr>
   = Inl IndexError"
  using repr_index_error
    [of "\<lparr>dataset_id = ''mscoco_val2017'', image_id = ''137576'', annotator_id = 93,
          caption = ''a dog'', timed_caption = [TimedUtterance ''a dog'' 0 1], traces = [[]],
          voice_recording = ''abc/def.ogg''\<rparr>" "\<lambda>u. utterance u" "\<lambda>p. ''pt''"]
  by simp

subsection \<open>The registry\<close>

lemma annotation_files_nonempty: "\<forall>(k, filenames) \<in> set ANNOTATION_FILES. filenames \<noteq> []"
  by (simp add: ANNOTATION_FILES_def)

text \<open>
  C5. For every key of the registry, \<open>expected_files\<close> returns a sequence of filenames
  that is not empty: the one the registry holds for the key. \<open>expected_files\<close> is a
  function of the key alone, it takes no world and returns none, so the same key gives
  the same sequence in the same order on every call, and there is no effect.
\<close>

theorem expected_files_known:
  assumes "dataset_and_split \<in> fst ` set ANNOTATION_FILES"
  shows "\<exists>filenames. expected_files dataset_and_split = Inr filenames \<and> filenames \<noteq> []
           \<and> (dataset_and_split, filenames) \<in> set ANNOTATION_FILES"
proof -
  from assms obtain filenames where
    found: "map_of ANNOTATION_FILES dataset_and_split = Some filenames"
    by (metis domD dom_map_of_conv_image_fst)
  then have mem: "(dataset_and_split, filenames) \<in> set ANNOTATION_FILES"
    by (rule map_of_SomeD)
  then have "filenames \<noteq> []"
    using annotation_files_nonempty by blast
  with found mem show ?thesis
    by (simp add: expected_files_def)
qed

theorem expected_files_known_witness:
  "''coco_val'' \<in> fst ` set ANNOTATION_FILES
   \<and> (\<exists>filenames. expected_files ''coco_val'' = Inr filenames \<and> filenames \<noteq> []
         \<and> (''coco_val'', filenames) \<in> set ANNOTATION_FILES)"
proof -
  have known: "''coco_val'' \<in> fst ` set ANNOTATION_FILES"
    by (simp add: ANNOTATION_FILES_def)
  from known expected_files_known [OF known] show ?thesis
    by blast
qed

lemma unknown_key_example: "map_of ANNOTATION_FILES ''nope'' = None"
  by (simp add: ANNOTATION_FILES_def)

subsection \<open>Unknown keys\<close>

text \<open>
  C3, as the spec has it: for a key that is not in the registry, both
  \<^verbatim>\<open>download_annotations\<close> and \<^verbatim>\<open>load_annotations\<close> fail before any I/O. This is not so for
  \<^verbatim>\<open>download_annotations\<close>, which calls \<^verbatim>\<open>os.makedirs\<close> before it looks the key up: with
  the key \<^verbatim>\<open>nope\<close> on an empty disk the directory \<^verbatim>\<open>data\<close> exists when the error is raised.
\<close>

theorem download_unknown_key_counterexample:
  "map_of ANNOTATION_FILES ''nope'' = None
   \<and> fst (download_annotations ''data'' ''nope'' empty_world)
       = Inl (ValueError ''Unknown value for `dataset_and_split`: nope'')
   \<and> trace empty_world = []
   \<and> trace (snd (download_annotations ''data'' ''nope'' empty_world)) = [MakeDirs ''data'']
   \<and> disk empty_world ''data'' = None
   \<and> disk (snd (download_annotations ''data'' ''nope'' empty_world)) ''data'' = Some Dir"
  by (simp add: unknown_key_example download_annotations_def expected_files_def os_makedirs_def
      is_slashes_def rstrip_slashes_def emit_def empty_world_def)

text \<open>
  C3, amended: for a key that is not in the registry, \<^verbatim>\<open>load_annotations\<close> raises
  \<^verbatim>\<open>ValueError\<close> and leaves the world as it was: no existence check, no file opened or
  read. \<^verbatim>\<open>download_annotations\<close> calls \<^verbatim>\<open>os.makedirs\<close> on the local root directory first
  and, when that call has succeeded, raises the same \<^verbatim>\<open>ValueError\<close> in the world that
  \<^verbatim>\<open>os.makedirs\<close> has left; this call is its only I/O: no existence check, no download,
  no console output.
\<close>

theorem unknown_key_errors:
  assumes "map_of ANNOTATION_FILES key = None"
  shows "load_annotations decode rootdir key max_num w =
           ([], Inl (ValueError (''Unknown value for `dataset_and_split`: '' @ key)), w)
       \<and> (\<forall>w1. os_makedirs rootdir w = (Inr (), w1) \<longrightarrow>
            download_annotations rootdir key w =
              (Inl (ValueError (''Unknown value for `dataset_and_split`: '' @ key)), w1)
            \<and> trace w1 = trace w @ [MakeDirs rootdir]
            \<and> remote w1 = remote w)"
proof (intro conjI allI impI)
  show "load_annotations decode rootdir key max_num w =
          ([], Inl (ValueError (''Unknown value for `dataset_and_split`: '' @ key)), w)"
    using assms by (simp add: load_annotations_def expected_files_def)
next
  fix w1 assume mk: "os_makedirs rootdir w = (Inr (), w1)"
  then show "download_annotations rootdir key w =
          (Inl (ValueError (''Unknown value for `dataset_and_split`: '' @ key)), w1)"
    using assms by (simp add: download_annotations_def expected_files_def)
  from mk show "trace w1 = trace w @ [MakeDirs rootdir]"
    by (auto simp: os_makedirs_def emit_def split: if_splits prod.splits)
  from mk show "remote w1 = remote w"
    by (auto simp: os_makedirs_def emit_def split: if_splits prod.splits)
qed

lemma makedirs_example:
  "os_makedirs ''data'' empty_world =
     (Inr (), \<lparr>disk = [''data'' \<mapsto> Dir], remote = Map.empty, trace = [MakeDirs ''data'']\<rparr>)"
  by (simp add: os_makedirs_def is_slashes_def rstrip_slashes_def emit_def empty_world_def)

theorem unknown_key_errors_witness:
  "load_annotations (\<lambda>line. Inl DecodeError) ''data'' ''nope'' 1 empty_world =
     ([], Inl (ValueError ''Unknown value for `dataset_and_split`: nope''), empty_world)
   \<and> download_annotations ''data'' ''nope'' empty_world =
       (Inl (ValueError ''Unknown value for `dataset_and_split`: nope''),
        \<lparr>disk = [''data'' \<mapsto> Dir], remote = Map.empty, trace = [MakeDirs ''data'']\<rparr>)"
  using unknown_key_errors [OF unknown_key_example, of "\<lambda>line. Inl DecodeError" "''data''" 1 empty_world]
    makedirs_example
  by simp

subsection \<open>Downloading twice\<close>

lemma download_one_file_present:
  assumes "disk w (local_file rootdir f) \<noteq> None"
  shows "download_one_file rootdir f w =
           (Inr (), w\<lparr>trace := trace w @ already_downloaded_events rootdir f\<rparr>)"
  using assms
  by (simp add: download_one_file_def os_path_exists_def emit_def already_downloaded_events_def)

lemma download_files_present:
  assumes "\<forall>f \<in> set files. disk w (local_file rootdir f) \<noteq> None"
  shows "download_files rootdir files w =
           (Inr (), w\<lparr>trace := trace w @ concat (map (already_downloaded_events rootdir) files)\<rparr>)"
  using assms
proof (induction files arbitrary: w)
  case Nil
  then show ?case by simp
next
  case (Cons f files)
  let ?w1 = "w\<lparr>trace := trace w @ already_downloaded_events rootdir f\<rparr>"
  have one: "download_one_file rootdir f w = (Inr (), ?w1)"
    using Cons.prems by (simp add: download_one_file_present)
  have "\<forall>g \<in> set files. disk ?w1 (local_file rootdir g) \<noteq> None"
    using Cons.prems by simp
  from Cons.IH [OF this] one show ?case by simp
qed

lemma download_one_file_keeps:
  assumes "download_one_file rootdir f w = (Inr u, w1)"
  shows "disk w1 (local_file rootdir f) \<noteq> None"
    and "\<And>p. disk w p \<noteq> None \<Longrightarrow> disk w1 p = disk w p"
  using assms
  by (auto simp: download_one_file_def os_path_exists_def wget_download_def emit_def
      split: if_splits option.splits bool.splits prod.splits sum.splits)

lemma download_files_keeps:
  assumes "download_files rootdir files w = (Inr u, w1)"
  shows "(\<forall>f \<in> set files. disk w1 (local_file rootdir f) \<noteq> None)
       \<and> (\<forall>p. disk w p \<noteq> None \<longrightarrow> disk w1 p = disk w p)"
  using assms
proof (induction files arbitrary: w)
  case Nil
  then show ?case by simp
next
  case (Cons f files)
  from Cons.prems obtain w' where
    one: "download_one_file rootdir f w = (Inr (), w')" and
    rest: "download_files rootdir files w' = (Inr u, w1)"
    by (auto split: prod.splits sum.splits)
  note d = download_one_file_keeps [OF one]
  note ih = Cons.IH [OF rest]
  show ?case
  proof (intro conjI ballI allI impI)
    fix g assume "g \<in> set (f # files)"
    then show "disk w1 (local_file rootdir g) \<noteq> None"
      using ih d(1) by auto
  next
    fix p assume "disk w p \<noteq> None"
    then show "disk w1 p = disk w p"
      using ih d(2) by metis
  qed
qed

lemma make_dirs_ok:
  assumes "make_dirs dsk ps = (Inr u, dsk')"
  shows "(\<forall>p \<in> set ps. dsk' p = Some Dir) \<and> (\<forall>p. dsk p \<noteq> None \<longrightarrow> dsk' p = dsk p)"
  using assms
proof (induction ps arbitrary: dsk)
  case Nil
  then show ?case by simp
next
  case (Cons q ps)
  show ?case
  proof (cases "dsk q")
    case None
    with Cons.prems have "make_dirs (dsk(q \<mapsto> Dir)) ps = (Inr u, dsk')" by simp
    from Cons.IH [OF this] have
      a: "\<forall>p \<in> set ps. dsk' p = Some Dir" and
      b: "\<forall>p. (dsk(q \<mapsto> Dir)) p \<noteq> None \<longrightarrow> dsk' p = (dsk(q \<mapsto> Dir)) p"
      by blast+
    from b have "dsk' q = Some Dir" by simp
    moreover from b None have "\<forall>p. dsk p \<noteq> None \<longrightarrow> dsk' p = dsk p"
      by (metis fun_upd_other)
    ultimately show ?thesis using a by simp
  next
    case (Some nd)
    with Cons.prems have nd: "nd = Dir" and "make_dirs dsk ps = (Inr u, dsk')"
      by (cases nd; simp)+
    from Cons.IH [OF this(2)] Some nd show ?thesis
      by auto
  qed
qed

lemma make_dirs_settled:
  assumes "\<forall>p \<in> set ps. dsk p = Some Dir"
  shows "make_dirs dsk ps = (Inr (), dsk)"
  using assms by (induction ps) simp_all

lemma os_makedirs_again:
  assumes "os_makedirs rootdir w = (Inr u, w')"
    and "\<forall>p. disk w' p \<noteq> None \<longrightarrow> disk w1 p = disk w' p"
  shows "os_makedirs rootdir w1 = (Inr (), w1\<lparr>trace := trace w1 @ [MakeDirs rootdir]\<rparr>)"
proof (cases "rootdir = [] \<or> is_slashes rootdir")
  case True
  with assms(1) show ?thesis
    by (auto simp: os_makedirs_def emit_def split: if_splits)
next
  case False
  let ?ps = "path_ancestors_from [] (rstrip_slashes rootdir) @ [rstrip_slashes rootdir]"
  from assms(1) False have "make_dirs (disk w) ?ps = (Inr u, disk w')"
    by (auto simp: os_makedirs_def emit_def split: prod.splits)
  from make_dirs_ok [OF this] have "\<forall>p \<in> set ?ps. disk w' p = Some Dir"
    by blast
  with assms(2) have "\<forall>p \<in> set ?ps. disk w1 p = Some Dir"
    by (metis option.distinct(1))
  from make_dirs_settled [OF this] False show ?thesis
    by (simp add: os_makedirs_def emit_def)
qed

text \<open>
  C7. If a call of \<^verbatim>\<open>download_annotations\<close> has succeeded and left the world \<open>w1\<close>, then
  every expected file of the key is present in \<open>w1\<close>, and a second call with the same
  directory and key succeeds and does nothing but this: \<^verbatim>\<open>os.makedirs\<close> on the directory
  that is there, and for each expected file one existence check and the line
  \<^verbatim>\<open>Already downloaded\<close>. There is no download, and no present file is opened or read: the
  disk and the contents of the files are as the first call left them.
\<close>

theorem download_annotations_idempotent:
  assumes "download_annotations rootdir key w = (Inr (), w1)"
  shows "\<exists>files. expected_files key = Inr files
           \<and> (\<forall>f \<in> set files. disk w1 (local_file rootdir f) \<noteq> None)
           \<and> download_annotations rootdir key w1 =
               (Inr (), w1\<lparr>trace := trace w1 @ MakeDirs rootdir
                                # concat (map (already_downloaded_events rootdir) files)\<rparr>)"
proof -
  from assms obtain w' files where
    mk: "os_makedirs rootdir w = (Inr (), w')" and
    ex: "expected_files key = Inr files" and
    dl: "download_files rootdir files w' = (Inr (), w1)"
    by (auto simp: download_annotations_def split: prod.splits sum.splits)
  note d = download_files_keeps [OF dl]
  let ?w2 = "w1\<lparr>trace := trace w1 @ [MakeDirs rootdir]\<rparr>"
  have again: "os_makedirs rootdir w1 = (Inr (), ?w2)"
    using os_makedirs_again [OF mk] d by blast
  have present: "\<forall>f \<in> set files. disk ?w2 (local_file rootdir f) \<noteq> None"
    using d by simp
  have "download_annotations rootdir key w1 = download_files rootdir files ?w2"
    by (simp add: download_annotations_def again ex)
  also have "\<dots> = (Inr (), ?w2\<lparr>trace := trace ?w2
                        @ concat (map (already_downloaded_events rootdir) files)\<rparr>)"
    by (rule download_files_present [OF present])
  finally show ?thesis
    using ex d by simp
qed

lemma example_first_download:
  "download_annotations ''data'' ''coco_val'' example_world =
     (Inr (),
      \<lparr>disk = [''data'' \<mapsto> Dir, ''data/coco_val_localized_narratives.jsonl'' \<mapsto> File [''a'', ''b'']],
       remote = remote example_world,
       trace =
         [MakeDirs ''data'', PathExists ''data/coco_val_localized_narratives.jsonl'',
          Print ''Downloading: coco_val_localized_narratives.jsonl'',
          WgetDownload (ANNOTATIONS_ROOT_URL @ ''/coco_val_localized_narratives.jsonl'')
            ''data/coco_val_localized_narratives.jsonl'',
          Print []]\<rparr>)"
  by (simp add: download_annotations_def os_makedirs_def is_slashes_def rstrip_slashes_def
      emit_def example_world_def expected_files_def ANNOTATION_FILES_def download_one_file_def
      os_path_exists_def local_file_def os_path_join_def wget_download_def)

theorem download_annotations_idempotent_witness:
  "fst (download_annotations ''data'' ''coco_val'' example_world) = Inr ()
   \<and> download_annotations ''data'' ''coco_val''
        (snd (download_annotations ''data'' ''coco_val'' example_world))
      = (Inr (),
         (snd (download_annotations ''data'' ''coco_val'' example_world))
           \<lparr>trace := trace (snd (download_annotations ''data'' ''coco_val'' example_world))
              @ [MakeDirs ''data'', PathExists ''data/coco_val_localized_narratives.jsonl'',
                 Print ''Already downloaded: coco_val_localized_narratives.jsonl'']\<rparr>)"
proof -
  have files: "expected_files ''coco_val'' = Inr [''coco_val_localized_narratives.jsonl'']"
    by (simp add: expected_files_def ANNOTATION_FILES_def)
  have first: "download_annotations ''data'' ''coco_val'' example_world =
                 (Inr (), snd (download_annotations ''data'' ''coco_val'' example_world))"
    by (simp add: example_first_download)
  have ok: "fst (download_annotations ''data'' ''coco_val'' example_world) = Inr ()"
    by (simp add: example_first_download)
  from download_annotations_idempotent [OF first] files
  have "download_annotations ''data'' ''coco_val''
          (snd (download_annotations ''data'' ''coco_val'' example_world))
        = (Inr (),
           (snd (download_annotations ''data'' ''coco_val'' example_world))
             \<lparr>trace := trace (snd (download_annotations ''data'' ''coco_val'' example_world))
                @ MakeDirs ''data''
                  # concat (map (already_downloaded_events ''data'')
                             [''coco_val_localized_narratives.jsonl''])\<rparr>)"
    by auto
  with ok show ?thesis
    by (simp add: already_downloaded_events_def local_file_def os_path_join_def)
qed

subsection \<open>Malformed recording paths\<close>

text \<open>
  The search of the code agrees with the pattern as a description: it finds nothing
  exactly for the paths that do not match, and what it finds has the two groups.
\<close>

lemma try_lengths_None_iff:
  "try_lengths f n = None \<longleftrightarrow> (\<forall>k. 1 \<le> k \<and> k \<le> n \<longrightarrow> f k = None)"
proof (induction n)
  case 0
  then show ?case by simp
next
  case (Suc n)
  show ?case
  proof (cases "f (Suc n)")
    case None
    have "(\<forall>k. 1 \<le> k \<and> k \<le> Suc n \<longrightarrow> f k = None) \<longleftrightarrow> (\<forall>k. 1 \<le> k \<and> k \<le> n \<longrightarrow> f k = None)"
      using None by (metis le_Suc_eq)
    with None Suc show ?thesis by simp
  next
    case (Some r)
    then have "\<not> (\<forall>k. 1 \<le> k \<and> k \<le> Suc n \<longrightarrow> f k = None)"
      by (metis Suc_le_mono le0 One_nat_def le_refl option.distinct(1))
    with Some show ?thesis by simp
  qed
qed


lemma class_run_split:
  "(\<exists>u v. s = u @ v \<and> class_run cl u \<and> Q v)
   \<longleftrightarrow> (\<exists>k. 1 \<le> k \<and> k \<le> length (takeWhile (in_class cl) s) \<and> Q (drop k s))"
proof
  assume "\<exists>u v. s = u @ v \<and> class_run cl u \<and> Q v"
  then obtain u v where s: "s = u @ v" and run: "class_run cl u" and q: "Q v"
    by blast
  from run have "takeWhile (in_class cl) s = u @ takeWhile (in_class cl) v"
    unfolding s class_run_def by (simp add: takeWhile_append2)
  then have "length u \<le> length (takeWhile (in_class cl) s)"
    by simp
  moreover from run have "1 \<le> length u"
    by (cases u) (auto simp: class_run_def)
  moreover from q have "Q (drop (length u) s)"
    unfolding s by simp
  ultimately show "\<exists>k. 1 \<le> k \<and> k \<le> length (takeWhile (in_class cl) s) \<and> Q (drop k s)"
    by blast
next
  assume "\<exists>k. 1 \<le> k \<and> k \<le> length (takeWhile (in_class cl) s) \<and> Q (drop k s)"
  then obtain k where k1: "1 \<le> k" and kn: "k \<le> length (takeWhile (in_class cl) s)"
    and q: "Q (drop k s)"
    by blast
  have "take k s = take k (takeWhile (in_class cl) s @ dropWhile (in_class cl) s)"
    by simp
  also have "\<dots> = take k (takeWhile (in_class cl) s)"
    using kn by (simp only: take_append diff_is_0_eq' take_0 append_Nil2)
  finally have "take k s = take k (takeWhile (in_class cl) s)" .
  then have "set (take k s) \<subseteq> set (takeWhile (in_class cl) s)"
    by (metis set_take_subset)
  then have "\<forall>c \<in> set (take k s). in_class cl c"
    by (meson set_takeWhileD subsetD)
  moreover have "take k s \<noteq> []"
    using k1 kn by (cases s) auto
  ultimately have "class_run cl (take k s)"
    by (simp add: class_run_def)
  moreover have "s = take k s @ drop k s"
    by simp
  ultimately show "\<exists>u v. s = u @ v \<and> class_run cl u \<and> Q v"
    using q by blast
qed

lemma re_match_None_iff: "re_match pat s = None \<longleftrightarrow> \<not> re_lang pat s"
proof (induction pat arbitrary: s)
  case Nil
  then show ?case by simp
next
  case (Cons it rest)
  show ?case
  proof (cases it)
    case (Lit c)
    then show ?thesis
      using Cons.IH by (cases s) auto
  next
    case (Plus cl)
    then show ?thesis
      by (simp add: try_lengths_None_iff Cons.IH class_run_split) blast
  next
    case (GroupPlus cl)
    then show ?thesis
      by (simp add: try_lengths_None_iff Cons.IH class_run_split) blast
  qed
qed









lemma split_unique:
  assumes "xs @ a # ys = xs' @ a' # ys'"
    and "\<forall>x \<in> set xs. P x" and "\<forall>x \<in> set xs'. P x" and "\<not> P a" and "\<not> P a'"
  shows "xs = xs' \<and> a = a' \<and> ys = ys'"
proof -
  have "takeWhile P (xs @ a # ys) = xs"
    using assms(2,4) by (simp add: takeWhile_append2)
  moreover have "takeWhile P (xs' @ a' # ys') = xs'"
    using assms(3,5) by (simp add: takeWhile_append2)
  ultimately have "xs = xs'"
    using assms(1) by simp
  with assms(1) show ?thesis by simp
qed





subsection \<open>Rewriting a stored path\<close>

text \<open>
  On a path \<^verbatim>\<open>split/text_digits_digits'.ext\<close> the search succeeds at the first position.
  The greedy \<^verbatim>\<open>\w+\<close> after the slash first takes the whole file name up to the dot and
  gives characters back until what follows is an underscore, digits, an underscore,
  digits and the dot; this happens at one length only, the length of the text.
\<close>

lemma try_lengths_unique:
  assumes "1 \<le> m" and "m \<le> n" and "f m = Some r"
    and "\<forall>k. m < k \<and> k \<le> n \<longrightarrow> f k = None"
  shows "try_lengths f n = Some r"
  using assms(2,4)
proof (induction n)
  case 0
  with assms(1) show ?case by simp
next
  case (Suc n)
  show ?case
  proof (cases "m = Suc n")
    case True
    with assms(3) show ?thesis by simp
  next
    case False
    with Suc.prems have le: "m \<le> n" and none: "f (Suc n) = None"
      by auto
    have "\<forall>k. m < k \<and> k \<le> n \<longrightarrow> f k = None"
      using Suc.prems(2) by auto
    from Suc.IH [OF le this] none show ?thesis by simp
  qed
qed

lemma takeWhile_run:
  assumes "\<forall>c \<in> set u. P c" and "\<not> P a"
  shows "takeWhile P (u @ a # v) = u"
  using assms by (simp add: takeWhile_append2)

lemma re_match_plus_first:
  assumes "takeWhile (in_class cl) s = u" and "u \<noteq> []"
    and "re_match rest (drop (length u) s) = Some g"
  shows "re_match (Plus cl # rest) s = Some g"
proof -
  from assms(2) obtain k where k: "length u = Suc k" by (cases u) auto
  with assms show ?thesis by simp
qed

lemma re_match_group_first:
  assumes "takeWhile (in_class cl) s = u" and "u \<noteq> []"
    and "re_match rest (drop (length u) s) = Some g"
  shows "re_match (GroupPlus cl # rest) s = Some (u # g)"
proof -
  from assms(2) obtain k where k: "length u = Suc k" by (cases u) auto
  have "take (length u) s = u"
    using assms(1) by (metis append_eq_conv_conj takeWhile_dropWhile_id)
  with assms k show ?thesis by simp
qed

lemma re_match_search:
  assumes "re_match pat s = Some g"
  shows "re_search pat s = Some g"
  using assms by (cases s) simp_all

lemma class_facts:
  "is_digit09 c \<Longrightarrow> is_word c"
  "is_word CHR ''_''" "\<not> is_word CHR ''.''" "\<not> is_word CHR ''/''"
  "\<not> is_digit09 CHR ''_''" "\<not> is_digit09 CHR ''.''"
  by (auto simp: is_digit09_def is_word_def Let_def)

lemma tail_lang:
  "re_lang [Lit CHR ''_'', GroupPlus Digit09, Lit CHR ''_'', Plus Digit09, Lit CHR ''.''] v
   \<longleftrightarrow> (\<exists>X Y z. v = CHR ''_'' # X @ CHR ''_'' # Y @ CHR ''.'' # z
                \<and> class_run Digit09 X \<and> class_run Digit09 Y)"
  by (simp, safe) (fastforce+)

lemma tail_match:
  assumes "class_run Digit09 d1" and "class_run Digit09 d2"
  shows "re_match [Lit CHR ''_'', GroupPlus Digit09, Lit CHR ''_'', Plus Digit09, Lit CHR ''.'']
           (CHR ''_'' # d1 @ CHR ''_'' # d2 @ CHR ''.'' # ext) = Some [d1]"
proof -
  have d1: "d1 \<noteq> []" "\<forall>c \<in> set d1. in_class Digit09 c"
    and d2: "d2 \<noteq> []" "\<forall>c \<in> set d2. in_class Digit09 c"
    using assms by (auto simp: class_run_def)
  have "re_match [Lit CHR ''.''] (drop (length d2) (d2 @ CHR ''.'' # ext)) = Some []"
    by simp
  moreover have "takeWhile (in_class Digit09) (d2 @ CHR ''.'' # ext) = d2"
    using d2(2) by (simp add: takeWhile_run class_facts)
  ultimately have a: "re_match [Plus Digit09, Lit CHR ''.''] (d2 @ CHR ''.'' # ext) = Some []"
    using d2(1) by (rule re_match_plus_first [rotated 2])
  have "re_match [Lit CHR ''_'', Plus Digit09, Lit CHR ''.'']
          (drop (length d1) (d1 @ CHR ''_'' # d2 @ CHR ''.'' # ext)) = Some []"
    using a by simp
  moreover have "takeWhile (in_class Digit09) (d1 @ CHR ''_'' # d2 @ CHR ''.'' # ext) = d1"
    using d1(2) by (simp add: takeWhile_run class_facts)
  ultimately have
    "re_match [GroupPlus Digit09, Lit CHR ''_'', Plus Digit09, Lit CHR ''.'']
       (d1 @ CHR ''_'' # d2 @ CHR ''.'' # ext) = Some [d1]"
    using d1(1) by (rule re_match_group_first [rotated 2])
  then show ?thesis by simp
qed

lemma tail_position_unique:
  assumes eq: "u @ CHR ''_'' # X @ CHR ''_'' # Y @ CHR ''.'' # z
             = t @ CHR ''_'' # d1 @ CHR ''_'' # d2 @ CHR ''.'' # ext"
    and u: "\<forall>c \<in> set u. is_word c" and t: "\<forall>c \<in> set t. is_word c"
    and X: "\<forall>c \<in> set X. is_digit09 c" and Y: "\<forall>c \<in> set Y. is_digit09 c"
    and d1: "\<forall>c \<in> set d1. is_digit09 c" and d2: "\<forall>c \<in> set d2. is_digit09 c"
  shows "u = t"
proof -
  have "(u @ CHR ''_'' # X @ CHR ''_'' # Y) @ CHR ''.'' # z
      = (t @ CHR ''_'' # d1 @ CHR ''_'' # d2) @ CHR ''.'' # ext"
    using eq by simp
  moreover have "\<forall>c \<in> set (u @ CHR ''_'' # X @ CHR ''_'' # Y). is_word c"
    using u X Y by (auto simp: class_facts)
  moreover have "\<forall>c \<in> set (t @ CHR ''_'' # d1 @ CHR ''_'' # d2). is_word c"
    using t d1 d2 by (auto simp: class_facts)
  ultimately have "u @ CHR ''_'' # X @ CHR ''_'' # Y = t @ CHR ''_'' # d1 @ CHR ''_'' # d2"
    using split_unique [of _ "CHR ''.''" z _ "CHR ''.''" ext is_word]
    by (metis class_facts(3))
  then have "rev (u @ CHR ''_'' # X @ CHR ''_'' # Y) = rev (t @ CHR ''_'' # d1 @ CHR ''_'' # d2)"
    by simp
  then have r1: "rev Y @ CHR ''_'' # (rev X @ CHR ''_'' # rev u)
               = rev d2 @ CHR ''_'' # (rev d1 @ CHR ''_'' # rev t)"
    by simp
  have "rev X @ CHR ''_'' # rev u = rev d1 @ CHR ''_'' # rev t"
    using split_unique [OF r1, of is_digit09] Y d2 by (simp add: class_facts)
  then have "rev u = rev t"
    using split_unique [of "rev X" "CHR ''_''" "rev u" "rev d1" "CHR ''_''" "rev t" is_digit09] X d1
    by (simp add: class_facts)
  then show ?thesis by simp
qed

lemma take_takeWhile:
  assumes "k \<le> length (takeWhile P xs)"
  shows "take k xs = take k (takeWhile P xs)"
proof -
  have "take k xs = take k (takeWhile P xs @ dropWhile P xs)" by simp
  also have "\<dots> = take k (takeWhile P xs)"
    using assms by (simp only: take_append diff_is_0_eq' take_0 append_Nil2)
  finally show ?thesis .
qed

lemma re_match_Plus:
  "re_match (Plus cl # rest) s =
     try_lengths (\<lambda>k. re_match rest (drop k s)) (length (takeWhile (in_class cl) s))"
  by simp

lemma voice_match_general:
  assumes sp: "class_run Word sp" and t: "class_run Word t"
    and d1: "class_run Digit09 d1" and d2: "class_run Digit09 d2"
  shows "re_search VOICE_PATTERN (sp @ ''/'' @ t @ ''_'' @ d1 @ ''_'' @ d2 @ ''.'' @ ext)
           = Some [sp, d1]"
proof -
  let ?tail = "[Lit CHR ''_'', GroupPlus Digit09, Lit CHR ''_'', Plus Digit09, Lit CHR ''.'']"
  let ?w = "t @ CHR ''_'' # d1 @ CHR ''_'' # d2"
  let ?s = "?w @ CHR ''.'' # ext"
  let ?f = "\<lambda>k. re_match ?tail (drop k ?s)"
  have spw: "sp \<noteq> []" "\<forall>c \<in> set sp. is_word c"
    and tw: "t \<noteq> []" "\<forall>c \<in> set t. is_word c"
    and d1d: "\<forall>c \<in> set d1. is_digit09 c" and d2d: "\<forall>c \<in> set d2. is_digit09 c"
    using assms by (auto simp: class_run_def)
  have ww: "\<forall>c \<in> set ?w. is_word c"
    using tw d1d d2d by (auto simp: class_facts)
  have tk: "takeWhile (in_class Word) ?s = ?w"
    using ww by (simp only: takeWhile_run [of ?w "in_class Word" "CHR ''.''" ext] in_class.simps
        class_facts simp_thms)
  have dr: "drop (length t) ?s = CHR ''_'' # d1 @ CHR ''_'' # d2 @ CHR ''.'' # ext"
    by simp
  have at_t: "?f (length t) = Some [d1]"
    unfolding dr by (rule tail_match [OF d1 d2])
  have none: "\<forall>k. length t < k \<and> k \<le> length ?w \<longrightarrow> ?f k = None"
  proof (intro allI impI)
    fix k assume k: "length t < k \<and> k \<le> length ?w"
    show "?f k = None"
    proof (rule ccontr)
      assume a: "\<not> re_match ?tail (drop k ?s) = None"
      have "re_lang ?tail (drop k ?s)"
      proof (rule ccontr)
        assume "\<not> re_lang ?tail (drop k ?s)"
        then have "re_match ?tail (drop k ?s) = None"
          by (rule re_match_None_iff [THEN iffD2])
        with a show False by (rule notE)
      qed
      then obtain X Y z where
        v: "drop k ?s = CHR ''_'' # X @ CHR ''_'' # Y @ CHR ''.'' # z"
        and X: "class_run Digit09 X" and Y: "class_run Digit09 Y"
        unfolding tail_lang by blast
      have tkk: "take k ?s = take k ?w"
      proof -
        from k have "k - length ?w = 0" by simp
        then show ?thesis by (simp only: take_append take_0 append_Nil2)
      qed
      then have uw: "\<forall>c \<in> set (take k ?s). is_word c"
        using ww by (metis in_set_takeD)
      have "take k ?s @ CHR ''_'' # X @ CHR ''_'' # Y @ CHR ''.'' # z = ?s"
        using v by (metis append_take_drop_id)
      then have "take k ?s @ CHR ''_'' # X @ CHR ''_'' # Y @ CHR ''.'' # z
               = t @ CHR ''_'' # d1 @ CHR ''_'' # d2 @ CHR ''.'' # ext"
        by simp
      from tail_position_unique [OF this uw tw(2) _ _ d1d d2d] X Y
      have "take k ?s = t"
        by (auto simp: class_run_def)
      then have "length (take k ?s) = length t" by simp
      moreover have "length (take k ?s) = k"
      proof -
        from k have "k \<le> length ?s" by simp
        then show ?thesis by (simp only: length_take min.absorb2)
      qed
      ultimately show False using k by simp
    qed
  qed
  have tl: "try_lengths ?f (length ?w) = Some [d1]"
    by (rule try_lengths_unique [OF _ _ at_t none]) (use tw(1) in \<open>auto simp: Suc_le_eq\<close>)
  have plus: "re_match (Plus Word # ?tail) ?s = Some [d1]"
    unfolding re_match_Plus tk by (rule tl)
  have drsp: "drop (length sp) (sp @ CHR ''/'' # ?s) = CHR ''/'' # ?s"
    by simp
  have lit: "re_match (Lit CHR ''/'' # Plus Word # ?tail) (CHR ''/'' # ?s)
           = re_match (Plus Word # ?tail) ?s"
    by (simp del: re_match.simps add: re_match.simps(2) [of "Lit CHR ''/''"])
  have "re_match (Lit CHR ''/'' # Plus Word # ?tail) (drop (length sp) (sp @ CHR ''/'' # ?s))
          = Some [d1]"
    unfolding drsp lit by (rule plus)
  moreover have "takeWhile (in_class Word) (sp @ CHR ''/'' # ?s) = sp"
    using spw(2) by (simp add: takeWhile_run class_facts)
  ultimately have "re_match (GroupPlus Word # Lit CHR ''/'' # Plus Word # ?tail)
                     (sp @ CHR ''/'' # ?s) = Some [sp, d1]"
    using spw(1) by (rule re_match_group_first [rotated 2])
  then have "re_match VOICE_PATTERN (sp @ CHR ''/'' # ?s) = Some [sp, d1]"
    by (simp only: VOICE_PATTERN_def)
  then have "re_search VOICE_PATTERN (sp @ CHR ''/'' # ?s) = Some [sp, d1]"
    by (rule re_match_search)
  then show ?thesis by simp
qed

lemma zfill_digits:
  assumes "class_run Digit09 d"
  shows "zfill 16 d = replicate (16 - length d) CHR ''0'' @ d"
proof (cases "16 \<le> length d")
  case True
  then show ?thesis by (simp add: zfill_def)
next
  case False
  from assms obtain c cs where d: "d = c # cs" and "is_digit09 c"
    by (cases d) (auto simp: class_run_def)
  then have "c \<noteq> CHR ''+'' \<and> c \<noteq> CHR ''-''"
    by (auto simp: is_digit09_def)
  with False d show ?thesis
    by (simp add: zfill_def)
qed

text \<open>
  C1. For a record of a rewritten-path family (its \<open>dataset_id\<close> contains \<^verbatim>\<open>Flic\<close> or
  \<^verbatim>\<open>ADE\<close>) whose stored \<open>voice_recording\<close> is \<^verbatim>\<open>split/text_digits_digits'.ext\<close>, with
  split and text runs of word characters and the two numbers runs of digits, the URL is
  the recordings base URL, a slash, and \<^verbatim>\<open>split/split_<padded>_<annotator_id>.ogg\<close>: the
  split id is the first path component, \<open>padded\<close> is the first number with zeros in front
  up to 16 digits, the extension is dropped, and the second number is replaced by the
  record's \<open>annotator_id\<close>. For the stored path \<^verbatim>\<open>val/coco_val_000137576_93.jpg\<close> and
  \<open>annotator_id = 93\<close> this is \<^verbatim>\<open>val/val_0000000000137576_93.ogg\<close>.
\<close>

theorem voice_recording_url_rewritten:
  assumes "contains ''Flic'' (dataset_id self) \<or> contains ''ADE'' (dataset_id self)"
    and "voice_recording self
           = split_id @ ''/'' @ text @ ''_'' @ digits @ ''_'' @ digits' @ ''.'' @ ext"
    and "class_run Word split_id" and "class_run Word text"
    and "class_run Digit09 digits" and "class_run Digit09 digits'"
  shows "voice_recording_url self =
     Inr (RECORDINGS_ROOT_URL @ ''/'' @ split_id @ ''/'' @ split_id @ ''_''
          @ replicate (16 - length digits) CHR ''0'' @ digits
          @ ''_'' @ str_int (annotator_id self) @ ''.ogg'')"
proof -
  have "re_search VOICE_PATTERN (voice_recording self) = Some [split_id, digits]"
    unfolding assms(2) by (rule voice_match_general [OF assms(3-6)])
  then show ?thesis
    using assms(1) by (simp add: voice_recording_url_def zfill_digits [OF assms(5)])
qed

theorem voice_recording_url_rewritten_witness:
  "voice_recording_url
     \<lparr>dataset_id = ''Flickr30k'', image_id = ''137576'', annotator_id = 93,
      caption = ''a dog'', timed_caption = [], traces = [],
      voice_recording = ''val/coco_val_000137576_93.jpg''\<rparr>
   = Inr ''https://storage.googleapis.com/localized-narratives/voice-recordings/val/val_0000000000137576_93.ogg''"
proof -
  have runs: "class_run Word ''val''" "class_run Word ''coco_val''"
    "class_run Digit09 ''000137576''" "class_run Digit09 ''93''"
    by (simp_all add: class_run_def is_word_def is_digit09_def)
  have fam: "contains ''Flic'' ''Flickr30k''" by simp
  have pad: "replicate 7 CHR ''0'' = ''0000000''"
    by (simp add: numeral_eq_Suc)
  have num: "str_int 93 = ''93''"
    by (simp add: str_int_def str_nat.simps digit_char_def)
  from voice_recording_url_rewritten
    [of "\<lparr>dataset_id = ''Flickr30k'', image_id = ''137576'', annotator_id = 93,
          caption = ''a dog'', timed_caption = [], traces = [],
          voice_recording = ''val/coco_val_000137576_93.jpg''\<rparr>"
        "''val''" "''coco_val''" "''000137576''" "''93''" "''jpg''"]
    runs fam
  have "voice_recording_url
     \<lparr>dataset_id = ''Flickr30k'', image_id = ''137576'', annotator_id = 93,
      caption = ''a dog'', timed_caption = [], traces = [],
      voice_recording = ''val/coco_val_000137576_93.jpg''\<rparr>
    = Inr (RECORDINGS_ROOT_URL @ ''/val/val_'' @ replicate 7 CHR ''0'' @ ''000137576_''
           @ str_int 93 @ ''.ogg'')"
    by simp
  then show ?thesis
    unfolding pad num by (simp add: RECORDINGS_ROOT_URL_def ROOT_URL_def)
qed

subsection \<open>Loading annotations\<close>

text \<open>
  The inner loop: without a limit in reach it reads every line up to the first that is
  not decodable; with the limit in reach it stops after the line that reaches it and
  closes the file.
\<close>

lemma read_lines_exhausted:
  assumes "max_num \<le> n \<or> n + int (length ls) < max_num"
    and "\<forall>l \<in> set ls. decodable decode l"
  shows "read_lines decode max_num p ls n w =
           (map (projr \<circ> decode) ls, Exhausted (n + int (length ls)),
            w\<lparr>trace := trace w @ replicate (length ls) (ReadLine p)\<rparr>)"
  using assms
proof (induction ls arbitrary: n w)
  case Nil
  then show ?case by simp
next
  case (Cons l ls)
  from Cons.prems(2) obtain r where r: "decode l = Inr r"
    by (auto simp: decodable_def split: sum.splits)
  have ne: "n + 1 \<noteq> max_num"
    using Cons.prems(1) by auto
  have step: "max_num \<le> n + 1 \<or> n + 1 + int (length ls) < max_num"
    using Cons.prems(1) by auto
  have dec: "\<forall>l \<in> set ls. decodable decode l"
    using Cons.prems(2) by simp
  show ?case
    using ne r Cons.IH [OF step dec, of "emit (ReadLine p) w"]
    by (simp add: emit_def replicate_append_same [symmetric] del: replicate_append_same) 
qed

lemma read_lines_limit:
  assumes "n < max_num" and "nat (max_num - n) \<le> length ls"
    and "\<forall>l \<in> set (take (nat (max_num - n)) ls). decodable decode l"
  shows "read_lines decode max_num p ls n w =
           (map (projr \<circ> decode) (take (nat (max_num - n)) ls), Returned,
            w\<lparr>trace := trace w @ replicate (nat (max_num - n)) (ReadLine p) @ [CloseFile p]\<rparr>)"
  using assms
proof (induction ls arbitrary: n w)
  case Nil
  then show ?case by simp
next
  case (Cons l ls)
  obtain k where k: "nat (max_num - n) = Suc k"
    using Cons.prems(1) by (cases "nat (max_num - n)") auto
  from Cons.prems(3) k obtain r where r: "decode l = Inr r"
    by (auto simp: decodable_def split: sum.splits)
  show ?case
  proof (cases "n + 1 = max_num")
    case True
    then have "nat (max_num - n) = 1" by simp
    with True r show ?thesis
      by (simp add: emit_def)
  next
    case False
    then have lt: "n + 1 < max_num" using Cons.prems(1) by simp
    have k': "nat (max_num - (n + 1)) = k" using k by simp
    have le: "nat (max_num - (n + 1)) \<le> length ls"
      using Cons.prems(2) k k' by simp
    have dec: "\<forall>l \<in> set (take (nat (max_num - (n + 1))) ls). decodable decode l"
      using Cons.prems(3) k k' by simp
    show ?thesis
      using False r Cons.IH [OF lt le dec, of "emit (ReadLine p) w"] k k'
      by (simp add: emit_def replicate_append_same [symmetric] del: replicate_append_same)
  qed
qed

lemma present_paths_absent:
  assumes "dsk (local_file rootdir f) = None"
  shows "present_paths dsk rootdir (f # fs) = present_paths dsk rootdir fs"
  using assms by (simp add: present_paths_def)

lemma present_paths_present:
  assumes "dsk (local_file rootdir f) = Some nd"
  shows "present_paths dsk rootdir (f # fs) = local_file rootdir f # present_paths dsk rootdir fs"
  using assms by (simp add: present_paths_def)

lemma local_lines_absent:
  assumes "dsk (local_file rootdir f) = None"
  shows "local_lines dsk rootdir (f # fs) = local_lines dsk rootdir fs"
  using assms by (simp add: local_lines_def present_paths_absent)

lemma local_lines_present:
  assumes "dsk (local_file rootdir f) = Some (File ls)"
  shows "local_lines dsk rootdir (f # fs) = ls @ local_lines dsk rootdir fs"
  using assms by (simp add: local_lines_def present_paths_present file_lines_def)

lemma regular_paths_tail:
  assumes "regular_paths dsk rootdir (f # fs)"
  shows "regular_paths dsk rootdir fs"
  using assms by (auto simp: regular_paths_def present_paths_def)

lemma regular_paths_head:
  assumes "regular_paths dsk rootdir (f # fs)" and "dsk (local_file rootdir f) = Some nd"
  shows "\<exists>ls. nd = File ls"
  using assms by (cases nd) (auto simp: regular_paths_def present_paths_def)

lemma load_files_absent:
  assumes "disk w (local_file rootdir f) = None"
  shows "load_files decode max_num rootdir (f # fs) n w =
           load_files decode max_num rootdir fs n (emit (PathExists (local_file rootdir f)) w)"
  using assms by (simp add: os_path_exists_def)

lemma count_reads_simps [simp]:
  "count_reads [] = 0"
  "count_reads (ReadLine p # evs) = Suc (count_reads evs)"
  "count_reads (PathExists p # evs) = count_reads evs"
  "count_reads (OpenFile p # evs) = count_reads evs"
  "count_reads (CloseFile p # evs) = count_reads evs"
  "count_reads (evs @ evs') = count_reads evs + count_reads evs'"
  "count_reads (replicate k (ReadLine p)) = k"
  by (simp_all add: count_reads_def)

lemma load_files_limit:
  assumes "regular_paths (disk w) rootdir filenames"
    and "n < max_num"
    and "nat (max_num - n) \<le> length (local_lines (disk w) rootdir filenames)"
    and "\<forall>l \<in> set (take (nat (max_num - n)) (local_lines (disk w) rootdir filenames)).
           decodable decode l"
  shows "\<exists>evs p. load_files decode max_num rootdir filenames n w =
           (map (projr \<circ> decode) (take (nat (max_num - n)) (local_lines (disk w) rootdir filenames)),
            Inr (), w\<lparr>trace := trace w @ evs @ [ReadLine p, CloseFile p]\<rparr>)
         \<and> count_reads evs = nat (max_num - n) - 1"
  using assms
proof (induction filenames arbitrary: n w)
  case Nil
  then show ?case by (simp add: local_lines_def present_paths_def)
next
  case (Cons f fs)
  let ?p = "local_file rootdir f"
  let ?K = "nat (max_num - n)"
  show ?case
  proof (cases "disk w ?p")
    case None
    let ?w1 = "emit (PathExists ?p) w"
    have d: "disk ?w1 = disk w" by (simp add: emit_def)
    have ll: "local_lines (disk w) rootdir (f # fs) = local_lines (disk w) rootdir fs"
      using None by (simp add: local_lines_absent)
    from Cons.IH [of ?w1 n] Cons.prems regular_paths_tail [OF Cons.prems(1)]
    obtain evs p where
      "load_files decode max_num rootdir fs n ?w1 =
         (map (projr \<circ> decode) (take ?K (local_lines (disk w) rootdir fs)), Inr (),
          ?w1\<lparr>trace := trace ?w1 @ evs @ [ReadLine p, CloseFile p]\<rparr>)"
      and "count_reads evs = ?K - 1"
      unfolding d ll by blast
    then have "load_files decode max_num rootdir (f # fs) n w =
         (map (projr \<circ> decode) (take ?K (local_lines (disk w) rootdir (f # fs))), Inr (),
          w\<lparr>trace := trace w @ (PathExists ?p # evs) @ [ReadLine p, CloseFile p]\<rparr>)"
      and "count_reads (PathExists ?p # evs) = ?K - 1"
      using None by (simp_all add: os_path_exists_def ll emit_def)
    then show ?thesis by blast
  next
    case (Some nd)
    from regular_paths_head [OF Cons.prems(1) Some] obtain ls where nd: "nd = File ls"
      by blast
    have ll: "local_lines (disk w) rootdir (f # fs) = ls @ local_lines (disk w) rootdir fs"
      using Some nd by (simp add: local_lines_present)
    let ?w2 = "emit (OpenFile ?p) (emit (PathExists ?p) w)"
    have opened: "load_files decode max_num rootdir (f # fs) n w =
        (case read_lines decode max_num ?p ls n ?w2 of
           (narratives, Raised e, w3) \<Rightarrow> (narratives, Inl e, w3)
         | (narratives, Returned, w3) \<Rightarrow> (narratives, Inr (), w3)
         | (narratives, Exhausted num_loaded1, w3) \<Rightarrow>
             (case load_files decode max_num rootdir fs num_loaded1 (emit (CloseFile ?p) w3) of
                (narratives1, r, w4) \<Rightarrow> (narratives @ narratives1, r, w4)))"
      using Some nd by (simp add: os_path_exists_def open_rb_def emit_def)
    have Kpos: "1 \<le> ?K" using Cons.prems(2) by simp
    show ?thesis
    proof (cases "?K \<le> length ls")
      case True
      have dec: "\<forall>l \<in> set (take ?K ls). decodable decode l"
        using Cons.prems(4) True unfolding ll by simp
      have rl: "read_lines decode max_num ?p ls n ?w2 =
           (map (projr \<circ> decode) (take ?K ls), Returned,
            ?w2\<lparr>trace := trace ?w2 @ replicate ?K (ReadLine ?p) @ [CloseFile ?p]\<rparr>)"
        by (rule read_lines_limit [OF Cons.prems(2) True dec])
      obtain k where k: "?K = Suc k" using Kpos by (cases ?K) auto
      have rep: "replicate ?K (ReadLine ?p) = replicate k (ReadLine ?p) @ [ReadLine ?p]"
        unfolding k by (simp add: replicate_append_same)
      have "load_files decode max_num rootdir (f # fs) n w =
           (map (projr \<circ> decode) (take ?K (local_lines (disk w) rootdir (f # fs))), Inr (),
            w\<lparr>trace := trace w @ ([PathExists ?p, OpenFile ?p] @ replicate k (ReadLine ?p))
                 @ [ReadLine ?p, CloseFile ?p]\<rparr>)"
        unfolding opened rl rep using True by (simp add: ll emit_def)
      moreover have "count_reads ([PathExists ?p, OpenFile ?p] @ replicate k (ReadLine ?p)) = ?K - 1"
        using k by simp
      ultimately show ?thesis by blast
    next
      case False
      then have short: "length ls < ?K" by simp
      then have lt: "n + int (length ls) < max_num" by linarith
      have decls: "\<forall>l \<in> set ls. decodable decode l"
        using Cons.prems(4) short unfolding ll by simp
      let ?w3 = "?w2\<lparr>trace := trace ?w2 @ replicate (length ls) (ReadLine ?p)\<rparr>"
      have rl: "read_lines decode max_num ?p ls n ?w2 =
           (map (projr \<circ> decode) ls, Exhausted (n + int (length ls)), ?w3)"
        by (rule read_lines_exhausted) (use lt decls in auto)
      let ?n' = "n + int (length ls)"
      let ?w4 = "emit (CloseFile ?p) ?w3"
      have d: "disk ?w4 = disk w" by (simp add: emit_def)
      have K': "nat (max_num - ?n') = ?K - length ls" using short by linarith
      have le': "nat (max_num - ?n') \<le> length (local_lines (disk w) rootdir fs)"
        using Cons.prems(3) unfolding ll K' by simp
      have dec': "\<forall>l \<in> set (take (nat (max_num - ?n')) (local_lines (disk w) rootdir fs)).
                    decodable decode l"
        using Cons.prems(4) short unfolding ll K' by simp
      from Cons.IH [of ?w4 ?n'] regular_paths_tail [OF Cons.prems(1)] lt le' dec'
      obtain evs p where
        ih: "load_files decode max_num rootdir fs ?n' ?w4 =
           (map (projr \<circ> decode) (take (nat (max_num - ?n')) (local_lines (disk w) rootdir fs)),
            Inr (), ?w4\<lparr>trace := trace ?w4 @ evs @ [ReadLine p, CloseFile p]\<rparr>)"
        and cnt: "count_reads evs = nat (max_num - ?n') - 1"
        unfolding d by blast
      let ?evs = "[PathExists ?p, OpenFile ?p] @ replicate (length ls) (ReadLine ?p)
                    @ [CloseFile ?p] @ evs"
      have "load_files decode max_num rootdir (f # fs) n w =
           (map (projr \<circ> decode) (take ?K (local_lines (disk w) rootdir (f # fs))), Inr (),
            w\<lparr>trace := trace w @ ?evs @ [ReadLine p, CloseFile p]\<rparr>)"
        unfolding opened rl using short ih by (simp add: K' ll emit_def)
      moreover have "count_reads ?evs = ?K - 1"
        using cnt K' short by simp
      ultimately show ?thesis by blast
    qed
  qed
qed

lemma first_failure_all_decodable:
  assumes "\<forall>l \<in> set ls. decodable decode l"
  shows "first_failure decode ls = Inr ()"
proof -
  from assms have dw: "dropWhile (decodable decode) ls = []" by simp
  show ?thesis unfolding first_failure_def dw by simp
qed

lemma first_failure_append_ok:
  assumes "\<forall>l \<in> set ls. decodable decode l"
  shows "first_failure decode (ls @ rest) = first_failure decode rest"
  using assms by (simp add: first_failure_def)

lemma first_failure_append_bad:
  assumes "\<not> (\<forall>l \<in> set ls. decodable decode l)"
  shows "first_failure decode (ls @ rest) = first_failure decode ls"
proof -
  from assms obtain l where "l \<in> set ls" and "\<not> decodable decode l" by blast
  then have "dropWhile (decodable decode) (ls @ rest) = dropWhile (decodable decode) ls @ rest"
    and "dropWhile (decodable decode) ls \<noteq> []"
    by (auto simp: dropWhile_append1)
  then show ?thesis
    by (cases "dropWhile (decodable decode) ls") (simp_all add: first_failure_def)
qed

lemma read_lines_nolimit:
  assumes "max_num \<le> n \<or> n + int (length (takeWhile (decodable decode) ls)) < max_num"
  shows "\<exists>evs. read_lines decode max_num p ls n w =
           (map (projr \<circ> decode) (takeWhile (decodable decode) ls),
            (case first_failure decode ls of
               Inr _ \<Rightarrow> Exhausted (n + int (length ls))
             | Inl e \<Rightarrow> Raised e),
            w\<lparr>trace := trace w @ evs\<rparr>)"
  using assms
proof (induction ls arbitrary: n w)
  case Nil
  have "w = w\<lparr>trace := trace w @ []\<rparr>" by simp
  then show ?case by (auto simp: first_failure_def intro: exI [of _ "[]"])
next
  case (Cons l ls)
  show ?case
  proof (cases "decode l")
    case (Inl e)
    then have bad: "\<not> decodable decode l" by (simp add: decodable_def)
    have "read_lines decode max_num p (l # ls) n w =
            ([], Raised e, w\<lparr>trace := trace w @ [ReadLine p]\<rparr>)"
      using Inl by (simp add: emit_def)
    with bad Inl show ?thesis
      by (auto simp: first_failure_def)
  next
    case (Inr r)
    then have ok: "decodable decode l" by (simp add: decodable_def)
    have ne: "n + 1 \<noteq> max_num"
      using Cons.prems ok by auto
    have step: "max_num \<le> n + 1 \<or> n + 1 + int (length (takeWhile (decodable decode) ls)) < max_num"
      using Cons.prems ok by auto
    from Cons.IH [OF step, of "emit (ReadLine p) w"] obtain evs where
      ih: "read_lines decode max_num p ls (n + 1) (emit (ReadLine p) w) =
           (map (projr \<circ> decode) (takeWhile (decodable decode) ls),
            (case first_failure decode ls of
               Inr _ \<Rightarrow> Exhausted (n + 1 + int (length ls))
             | Inl e \<Rightarrow> Raised e),
            (emit (ReadLine p) w)\<lparr>trace := trace (emit (ReadLine p) w) @ evs\<rparr>)"
      by blast
    have ff: "first_failure decode (l # ls) = first_failure decode ls"
      using ok by (simp add: first_failure_def)
    have "read_lines decode max_num p (l # ls) n w =
           (map (projr \<circ> decode) (takeWhile (decodable decode) (l # ls)),
            (case first_failure decode (l # ls) of
               Inr _ \<Rightarrow> Exhausted (n + int (length (l # ls)))
             | Inl e \<Rightarrow> Raised e),
            w\<lparr>trace := trace w @ (ReadLine p # evs)\<rparr>)"
      using ne Inr ok ih unfolding ff
      by (simp add: emit_def add.assoc split: sum.splits)
    then show ?thesis by blast
  qed
qed

lemma load_files_nolimit:
  assumes "regular_paths (disk w) rootdir filenames"
    and "max_num \<le> n
         \<or> n + int (length (takeWhile (decodable decode) (local_lines (disk w) rootdir filenames)))
             < max_num"
  shows "\<exists>evs. load_files decode max_num rootdir filenames n w =
           (map (projr \<circ> decode) (takeWhile (decodable decode) (local_lines (disk w) rootdir filenames)),
            first_failure decode (local_lines (disk w) rootdir filenames),
            w\<lparr>trace := trace w @ evs\<rparr>)"
  using assms
proof (induction filenames arbitrary: n w)
  case Nil
  have "w = w\<lparr>trace := trace w @ []\<rparr>" by simp
  then show ?case
    by (auto simp: local_lines_def present_paths_def first_failure_def intro: exI [of _ "[]"])
next
  case (Cons f fs)
  let ?p = "local_file rootdir f"
  let ?ok = "decodable decode"
  show ?case
  proof (cases "disk w ?p")
    case None
    let ?w1 = "emit (PathExists ?p) w"
    have d: "disk ?w1 = disk w" by (simp add: emit_def)
    have ll: "local_lines (disk w) rootdir (f # fs) = local_lines (disk w) rootdir fs"
      using None by (simp add: local_lines_absent)
    from Cons.IH [of ?w1 n] Cons.prems regular_paths_tail [OF Cons.prems(1)]
    obtain evs where
      "load_files decode max_num rootdir fs n ?w1 =
         (map (projr \<circ> decode) (takeWhile ?ok (local_lines (disk w) rootdir fs)),
          first_failure decode (local_lines (disk w) rootdir fs),
          ?w1\<lparr>trace := trace ?w1 @ evs\<rparr>)"
      unfolding d ll by blast
    then have "load_files decode max_num rootdir (f # fs) n w =
         (map (projr \<circ> decode) (takeWhile ?ok (local_lines (disk w) rootdir (f # fs))),
          first_failure decode (local_lines (disk w) rootdir (f # fs)),
          w\<lparr>trace := trace w @ (PathExists ?p # evs)\<rparr>)"
      using None by (simp add: os_path_exists_def ll emit_def)
    then show ?thesis by blast
  next
    case (Some nd)
    from regular_paths_head [OF Cons.prems(1) Some] obtain ls where nd: "nd = File ls"
      by blast
    let ?rest = "local_lines (disk w) rootdir fs"
    have ll: "local_lines (disk w) rootdir (f # fs) = ls @ ?rest"
      using Some nd by (simp add: local_lines_present)
    let ?w2 = "emit (OpenFile ?p) (emit (PathExists ?p) w)"
    have opened: "load_files decode max_num rootdir (f # fs) n w =
        (case read_lines decode max_num ?p ls n ?w2 of
           (narratives, Raised e, w3) \<Rightarrow> (narratives, Inl e, w3)
         | (narratives, Returned, w3) \<Rightarrow> (narratives, Inr (), w3)
         | (narratives, Exhausted num_loaded1, w3) \<Rightarrow>
             (case load_files decode max_num rootdir fs num_loaded1 (emit (CloseFile ?p) w3) of
                (narratives1, r, w4) \<Rightarrow> (narratives @ narratives1, r, w4)))"
      using Some nd by (simp add: os_path_exists_def open_rb_def emit_def)
    have len: "length (takeWhile ?ok ls) \<le> length (takeWhile ?ok (ls @ ?rest))"
    proof (cases "\<forall>l \<in> set ls. ?ok l")
      case True
      then have "takeWhile ?ok (ls @ ?rest) = ls @ takeWhile ?ok ?rest"
        by (simp add: takeWhile_append2)
      moreover have "length (takeWhile ?ok ls) \<le> length ls"
        by (rule length_takeWhile_le)
      ultimately show ?thesis by simp
    next
      case False
      then obtain l where "l \<in> set ls" "\<not> ?ok l" by blast
      then show ?thesis by (simp add: takeWhile_append1)
    qed
    have cond: "max_num \<le> n \<or> n + int (length (takeWhile ?ok ls)) < max_num"
      using Cons.prems(2) len unfolding ll by linarith
    from read_lines_nolimit [OF cond, of ?p ?w2] obtain evs1 where
      rl: "read_lines decode max_num ?p ls n ?w2 =
           (map (projr \<circ> decode) (takeWhile ?ok ls),
            (case first_failure decode ls of
               Inr _ \<Rightarrow> Exhausted (n + int (length ls))
             | Inl e \<Rightarrow> Raised e),
            ?w2\<lparr>trace := trace ?w2 @ evs1\<rparr>)"
      by blast
    show ?thesis
    proof (cases "\<forall>l \<in> set ls. ?ok l")
      case True
      then have dw0: "dropWhile ?ok ls = []" by simp
      from True have tw: "takeWhile ?ok ls = ls"
        and twa: "takeWhile ?ok (ls @ ?rest) = ls @ takeWhile ?ok ?rest"
        and ffa: "first_failure decode (ls @ ?rest) = first_failure decode ?rest"
        by (simp_all add: takeWhile_append2 first_failure_def)
      have ffl: "first_failure decode ls = Inr ()"
        by (simp add: first_failure_def dw0)
      let ?n' = "n + int (length ls)"
      let ?w4 = "emit (CloseFile ?p) (?w2\<lparr>trace := trace ?w2 @ evs1\<rparr>)"
      have d: "disk ?w4 = disk w" by (simp add: emit_def)
      have cond': "max_num \<le> ?n' \<or> ?n' + int (length (takeWhile ?ok ?rest)) < max_num"
        using Cons.prems(2) unfolding ll twa by auto
      from Cons.IH [of ?w4 ?n'] regular_paths_tail [OF Cons.prems(1)] cond'
      obtain evs where
        ih: "load_files decode max_num rootdir fs ?n' ?w4 =
           (map (projr \<circ> decode) (takeWhile ?ok ?rest), first_failure decode ?rest,
            ?w4\<lparr>trace := trace ?w4 @ evs\<rparr>)"
        unfolding d by blast
      have "load_files decode max_num rootdir (f # fs) n w =
           (map (projr \<circ> decode) (takeWhile ?ok (local_lines (disk w) rootdir (f # fs))),
            first_failure decode (local_lines (disk w) rootdir (f # fs)),
            w\<lparr>trace := trace w @ ([PathExists ?p, OpenFile ?p] @ evs1 @ [CloseFile ?p] @ evs)\<rparr>)"
        unfolding opened rl ll twa ffa using ih
        by (simp add: tw ffl emit_def)
      then show ?thesis by blast
    next
      case False
      then obtain l where l: "l \<in> set ls" "\<not> ?ok l" by blast
      then have twa: "takeWhile ?ok (ls @ ?rest) = takeWhile ?ok ls"
        by (simp add: takeWhile_append1)
      have ffa: "first_failure decode (ls @ ?rest) = first_failure decode ls"
        by (rule first_failure_append_bad [OF False])
      from l have "dropWhile ?ok ls \<noteq> []" by auto
      then obtain b bs where dw: "dropWhile ?ok ls = b # bs"
        by (cases "dropWhile ?ok ls") auto
      then have "\<not> ?ok b"
        by (metis hd_dropWhile list.sel(1) list.distinct(1))
      then obtain e where "decode b = Inl e"
        by (auto simp: decodable_def split: sum.splits)
      with dw have ffl: "first_failure decode ls = Inl e"
        by (simp add: first_failure_def)
      have "load_files decode max_num rootdir (f # fs) n w =
           (map (projr \<circ> decode) (takeWhile ?ok (local_lines (disk w) rootdir (f # fs))),
            first_failure decode (local_lines (disk w) rootdir (f # fs)),
            w\<lparr>trace := trace w @ ([PathExists ?p, OpenFile ?p] @ evs1)\<rparr>)"
        unfolding opened rl ll twa ffa
        by (simp add: ffl emit_def)
      then show ?thesis by blast
    qed
  qed
qed

lemma load_files_expected:
  assumes "regular_paths (disk w) rootdir filenames"
  shows "\<exists>evs. load_files decode max_num rootdir filenames 0 w =
           (fst (expected_load decode max_num (local_lines (disk w) rootdir filenames)),
            snd (expected_load decode max_num (local_lines (disk w) rootdir filenames)),
            w\<lparr>trace := trace w @ evs\<rparr>)"
proof (cases "0 < max_num
    \<and> nat max_num \<le> length (takeWhile (decodable decode) (local_lines (disk w) rootdir filenames))")
  case True
  let ?lines = "local_lines (disk w) rootdir filenames"
  have le: "nat (max_num - 0) \<le> length ?lines"
    using True length_takeWhile_le [of "decodable decode" ?lines] by simp
  have "set (take (nat max_num) ?lines) \<subseteq> set (takeWhile (decodable decode) ?lines)"
    using True take_takeWhile [of "nat max_num" "decodable decode" ?lines]
    by (metis set_take_subset)
  then have dec: "\<forall>l \<in> set (take (nat (max_num - 0)) ?lines). decodable decode l"
    by (auto dest: set_takeWhileD)
  from load_files_limit [OF assms _ le dec] True obtain evs p where
    "load_files decode max_num rootdir filenames 0 w =
       (map (projr \<circ> decode) (take (nat (max_num - 0)) ?lines), Inr (),
        w\<lparr>trace := trace w @ evs @ [ReadLine p, CloseFile p]\<rparr>)"
    by blast
  with True show ?thesis
    by (auto simp: expected_load_def)
next
  case False
  then have "max_num \<le> 0
     \<or> 0 + int (length (takeWhile (decodable decode) (local_lines (disk w) rootdir filenames)))
         < max_num"
    by linarith
  from load_files_nolimit [OF assms this] show ?thesis
    unfolding expected_load_def if_not_P [OF False] by simp
qed

lemma coco_train_files:
  "expected_files ''coco_train'' =
     Inr [''coco_train_localized_narratives-00000-of-00004.jsonl'',
          ''coco_train_localized_narratives-00001-of-00004.jsonl'',
          ''coco_train_localized_narratives-00002-of-00004.jsonl'',
          ''coco_train_localized_narratives-00003-of-00004.jsonl'']"
  by code_simp

lemma coco_val_files:
  "expected_files ''coco_val'' = Inr [''coco_val_localized_narratives.jsonl'']"
  by (simp add: expected_files_def ANNOTATION_FILES_def)

lemma partial_world_lines:
  "local_lines (disk partial_world) ''data''
     [''coco_train_localized_narratives-00000-of-00004.jsonl'',
      ''coco_train_localized_narratives-00001-of-00004.jsonl'',
      ''coco_train_localized_narratives-00002-of-00004.jsonl'',
      ''coco_train_localized_narratives-00003-of-00004.jsonl'']
   = [''a'', ''b'', ''c'', ''d'']"
  by (simp add: local_lines_def present_paths_def file_lines_def partial_world_def
      local_file_def os_path_join_def)

lemma partial_world_regular:
  "regular_paths (disk partial_world) ''data''
     [''coco_train_localized_narratives-00000-of-00004.jsonl'',
      ''coco_train_localized_narratives-00001-of-00004.jsonl'',
      ''coco_train_localized_narratives-00002-of-00004.jsonl'',
      ''coco_train_localized_narratives-00003-of-00004.jsonl'']"
  by (simp add: regular_paths_def present_paths_def partial_world_def
      local_file_def os_path_join_def)

lemma example_decode_ok:
  "decodable example_decode ''a''" "decodable example_decode ''b''"
  "decodable example_decode ''c''" "decodable example_decode ''d''"
  "\<not> decodable example_decode ''bad''"
  by (simp_all add: decodable_def example_decode_def)

lemma damaged_world_lines:
  "local_lines (disk damaged_world) ''data'' [''coco_val_localized_narratives.jsonl'']
     = [''bad'', ''a'', ''b'']"
  by (simp add: local_lines_def present_paths_def file_lines_def damaged_world_def
      local_file_def os_path_join_def)

text \<open>
  C2, as the spec has it: if the present files together contain more than \<open>N\<close> decodable
  lines, \<^verbatim>\<open>load_annotations\<close> with the limit \<open>N\<close> yields exactly \<open>N\<close> records. This is not so
  when an undecodable line comes before the \<open>N\<close>-th decodable one: a \<^verbatim>\<open>coco_val\<close> file with
  the lines \<^verbatim>\<open>bad\<close>, \<^verbatim>\<open>a\<close>, \<^verbatim>\<open>b\<close> has two decodable lines, and with the limit 1 the
  generator raises on the first line and has yielded nothing.
\<close>

theorem load_annotations_limit_counterexample:
  "expected_files ''coco_val'' = Inr [''coco_val_localized_narratives.jsonl'']
   \<and> length (filter (decodable example_decode)
        (local_lines (disk damaged_world) ''data'' [''coco_val_localized_narratives.jsonl''])) = 2
   \<and> fst (load_annotations example_decode ''data'' ''coco_val'' 1 damaged_world) = []
   \<and> fst (snd (load_annotations example_decode ''data'' ''coco_val'' 1 damaged_world))
       = Inl DecodeError"
proof -
  have count: "length (filter (decodable example_decode)
        (local_lines (disk damaged_world) ''data'' [''coco_val_localized_narratives.jsonl''])) = 2"
    unfolding damaged_world_lines by (simp add: example_decode_ok)
  have run: "load_annotations example_decode ''data'' ''coco_val'' 1 damaged_world =
      ([], Inl DecodeError,
       damaged_world\<lparr>trace :=
         [PathExists ''data/coco_val_localized_narratives.jsonl'',
          OpenFile ''data/coco_val_localized_narratives.jsonl'',
          ReadLine ''data/coco_val_localized_narratives.jsonl'']\<rparr>)"
    by (simp add: coco_val_files load_annotations_def os_path_exists_def open_rb_def emit_def
        damaged_world_def local_file_def os_path_join_def example_decode_def)
  from count run coco_val_files show ?thesis
    by simp
qed

text \<open>
  C2, amended: for a known key, a disk on which every expected path that exists is a
  regular file, and a limit \<open>N > 0\<close>: if the present files together have at least \<open>N\<close>
  lines and the first \<open>N\<close> of them, in registry file order and within-file line order,
  are decodable, then \<^verbatim>\<open>load_annotations\<close> with \<^verbatim>\<open>max_num_annotations = N\<close> yields exactly
  the \<open>N\<close> records of these lines, in this order, and returns. It has then read \<open>N\<close>
  lines: the last two events are the read of the \<open>N\<close>-th line and the closing of its
  file, so that no line is read and no file is looked for or opened after the \<open>N\<close>-th
  record.
\<close>

theorem load_annotations_limit:
  assumes "expected_files key = Inr filenames"
    and "regular_paths (disk w) rootdir filenames"
    and "0 < N"
    and "N \<le> length (local_lines (disk w) rootdir filenames)"
    and "\<forall>l \<in> set (take N (local_lines (disk w) rootdir filenames)). decodable decode l"
  shows "\<exists>evs p. load_annotations decode rootdir key (int N) w =
           (map (projr \<circ> decode) (take N (local_lines (disk w) rootdir filenames)), Inr (),
            w\<lparr>trace := trace w @ evs @ [ReadLine p, CloseFile p]\<rparr>)
         \<and> length (take N (local_lines (disk w) rootdir filenames)) = N
         \<and> count_reads evs = N - 1"
proof -
  have "(0::int) < int N" using assms(3) by simp
  from load_files_limit [OF assms(2) this, of decode] assms(4,5) assms(1)
  show ?thesis
    by (simp add: load_annotations_def)
qed

theorem load_annotations_limit_witness:
  "\<exists>evs p. load_annotations example_decode ''data'' ''coco_train'' 3 partial_world =
      (map (projr \<circ> example_decode) [''a'', ''b'', ''c''], Inr (),
       partial_world\<lparr>trace := trace partial_world @ evs @ [ReadLine p, CloseFile p]\<rparr>)
     \<and> count_reads evs = 2"
  using load_annotations_limit [OF coco_train_files partial_world_regular, of 3 example_decode]
  by (simp add: partial_world_lines example_decode_ok)

text \<open>
  C6. For a known key and a disk on which every expected path that exists is a regular
  file: the records that \<^verbatim>\<open>load_annotations\<close> yields and the way it ends are those of one
  pass over the lines of the present files, file after file in registry order. A file
  that is absent contributes no record and no error (its existence check is the only
  trace of it); the generator raises only when a line of a present file is not
  decodable.
\<close>

theorem load_annotations_present_only:
  assumes "expected_files key = Inr filenames"
    and "regular_paths (disk w) rootdir filenames"
  shows "\<exists>evs. load_annotations decode rootdir key max_num w =
           (fst (expected_load decode max_num (local_lines (disk w) rootdir filenames)),
            snd (expected_load decode max_num (local_lines (disk w) rootdir filenames)),
            w\<lparr>trace := trace w @ evs\<rparr>)"
  using load_files_expected [OF assms(2)] assms(1)
  by (simp add: load_annotations_def)

theorem load_annotations_present_only_witness:
  "\<exists>evs. load_annotations example_decode ''data'' ''coco_train'' DEFAULT_MAX_NUM_ANNOTATIONS
            partial_world =
      (map (projr \<circ> example_decode) [''a'', ''b'', ''c'', ''d''], Inr (),
       partial_world\<lparr>trace := trace partial_world @ evs\<rparr>)"
  using load_annotations_present_only [OF coco_train_files partial_world_regular,
      of example_decode DEFAULT_MAX_NUM_ANNOTATIONS]
  by (simp add: partial_world_lines example_decode_ok expected_load_def first_failure_def
      DEFAULT_MAX_NUM_ANNOTATIONS_def)

text \<open>
  C9. With \<^verbatim>\<open>max_num_annotations\<close> zero or negative the count \<^verbatim>\<open>num_loaded\<close>, which is at
  least one when it is compared, never equals the limit: \<^verbatim>\<open>load_annotations\<close> does not
  yield zero records, it goes through every line of every present file, up to the first
  undecodable line if there is one. When all lines are decodable it yields the record
  of every line of every present file and returns normally.
\<close>

theorem load_annotations_nonpositive_limit:
  assumes "expected_files key = Inr filenames"
    and "regular_paths (disk w) rootdir filenames"
    and "max_num \<le> 0"
  shows "\<exists>evs. load_annotations decode rootdir key max_num w =
           (map (projr \<circ> decode) (takeWhile (decodable decode) (local_lines (disk w) rootdir filenames)),
            first_failure decode (local_lines (disk w) rootdir filenames),
            w\<lparr>trace := trace w @ evs\<rparr>)
         \<and> ((\<forall>l \<in> set (local_lines (disk w) rootdir filenames). decodable decode l) \<longrightarrow>
              fst (load_annotations decode rootdir key max_num w)
                = map (projr \<circ> decode) (local_lines (disk w) rootdir filenames)
              \<and> fst (snd (load_annotations decode rootdir key max_num w)) = Inr ())"
proof -
  let ?lines = "local_lines (disk w) rootdir filenames"
  have "max_num \<le> 0 \<or> 0 + int (length (takeWhile (decodable decode) ?lines)) < max_num"
    using assms(3) by simp
  from load_files_nolimit [OF assms(2) this] obtain evs where
    eq: "load_annotations decode rootdir key max_num w =
           (map (projr \<circ> decode) (takeWhile (decodable decode) ?lines),
            first_failure decode ?lines, w\<lparr>trace := trace w @ evs\<rparr>)"
    using assms(1) by (auto simp: load_annotations_def)
  have "fst (load_annotations decode rootdir key max_num w) = map (projr \<circ> decode) ?lines
        \<and> fst (snd (load_annotations decode rootdir key max_num w)) = Inr ()"
    if ok: "\<forall>l \<in> set ?lines. decodable decode l"
  proof -
    from ok have tw: "takeWhile (decodable decode) ?lines = ?lines"
      by (simp only: takeWhile_eq_all_conv)
    show ?thesis
      unfolding eq tw by (simp add: first_failure_all_decodable [OF ok])
  qed
  with eq show ?thesis by blast
qed

theorem load_annotations_nonpositive_limit_witness:
  "fst (load_annotations example_decode ''data'' ''coco_train'' 0 partial_world)
     = map (projr \<circ> example_decode) [''a'', ''b'', ''c'', ''d'']
   \<and> fst (snd (load_annotations example_decode ''data'' ''coco_train'' 0 partial_world)) = Inr ()"
  using load_annotations_nonpositive_limit [OF coco_train_files partial_world_regular,
      of 0 example_decode]
  by (simp add: partial_world_lines example_decode_ok)

end
